theory Spec2Isabelle
  imports Complex_Main
begin

section \<open>Constants\<close>

text \<open>
  \<^verbatim>\<open>MAX_ENERGY = 100\<close>, \<^verbatim>\<open>TRANSMISSION_COST = 2\<close>, \<^verbatim>\<open>RECEPTION_COST = 1\<close>
  (lines 8 to 10 of streamlit_app.py). All three are Python ints.
\<close>

definition MAX_ENERGY :: int where
  "MAX_ENERGY = 100"

definition TRANSMISSION_COST :: int where
  "TRANSMISSION_COST = 2"

definition RECEPTION_COST :: int where
  "RECEPTION_COST = 1"

section \<open>Data model\<close>

text \<open>
  Node identities are the Python ints \<^verbatim>\<open>range(num_nodes)\<close>. A position is a pair of
  coordinates, each a finite float: a real number that is a double. The positions
  dictionary is an association list in insertion order; the energy dictionary is a
  map from nodes to ints.
\<close>

type_synonym node = int

type_synonym position = "real \<times> real"

type_synonym positions = "(node \<times> position) list"

type_synonym energy = "node \<rightharpoonup> int"

text \<open>
  Modelled from the spec: the class \<^verbatim>\<open>nx.Graph\<close> of the networkx library is not part of
  the repository. The Topology Graph of the spec (an undirected graph over node
  identities) is modelled after the library's adjacency dictionary: every node is
  mapped to the list of its neighbours, both in insertion order.
\<close>

type_synonym graph = "(node \<times> node list) list"

definition empty_graph :: graph where
  "empty_graph = []"

definition nodes :: "graph \<Rightarrow> node list" where
  "nodes G = map fst G"

definition has_node :: "graph \<Rightarrow> node \<Rightarrow> bool" where
  "has_node G n = (n \<in> set (nodes G))"

definition neighbors :: "graph \<Rightarrow> node \<Rightarrow> node list" where
  "neighbors G u = (case map_of G u of None \<Rightarrow> [] | Some ns \<Rightarrow> ns)"

definition has_edge :: "graph \<Rightarrow> node \<Rightarrow> node \<Rightarrow> bool" where
  "has_edge G u v = (v \<in> set (neighbors G u))"

text \<open>
  Modelled from the spec: \<^verbatim>\<open>G.add_node(n)\<close>, \<^verbatim>\<open>G.add_nodes_from(ns)\<close> and
  \<^verbatim>\<open>G.add_edge(u, v)\<close> of networkx. Adding a node that is present changes nothing;
  adding an edge adds both endpoints when they are missing and records each endpoint
  as a neighbour of the other.
\<close>

definition add_node :: "graph \<Rightarrow> node \<Rightarrow> graph" where
  "add_node G n = (if has_node G n then G else G @ [(n, [])])"

definition add_nodes_from :: "graph \<Rightarrow> node list \<Rightarrow> graph" where
  "add_nodes_from G ns = fold (\<lambda>n H. add_node H n) ns G"

definition add_neighbor :: "graph \<Rightarrow> node \<Rightarrow> node \<Rightarrow> graph" where
  "add_neighbor G u v =
     map (\<lambda>(k, ns). if k = u \<and> v \<notin> set ns then (k, ns @ [v]) else (k, ns)) G"

definition add_edge :: "graph \<Rightarrow> node \<Rightarrow> node \<Rightarrow> graph" where
  "add_edge G u v = add_neighbor (add_neighbor (add_node (add_node G u) v) u v) v u"

text \<open>
  The exceptions that the Python code can raise: the two of \<^verbatim>\<open>nx.shortest_path\<close>
  (NodeNotFound carries its message), the KeyError of a dictionary lookup, and the
  OverflowError and ValueError of float arithmetic.
\<close>

datatype exn = NetworkXNoPath | NodeNotFound string | KeyError | OverflowError | ValueError

section \<open>Double-precision arithmetic\<close>

text \<open>
  A Python float is the IEEE 754 double of the platform. Its arithmetic is not part of
  the repository; it is modelled after IEEE 754. \<open>quantum x\<close> is the exponent of the
  unit in the last place of \<open>x\<close> (53 significant bits, and no less than - 1074, the
  exponent of the smallest subnormal number); the doubles around \<open>x\<close> are the multiples
  of that unit. \<open>round_double x\<close> is the real number to which a finite result \<open>x\<close> is
  rounded when the exponent is not bounded above, to nearest and ties to even: the
  rounding of \<^verbatim>\<open>+\<close>, \<^verbatim>\<open>-\<close> and \<^verbatim>\<open>math.sqrt\<close>. A rounded result of magnitude \<open>2 ^ 1024\<close>
  or more is too large for a double.
\<close>

definition round_half_even :: "real \<Rightarrow> int" where
  "round_half_even r =
     (if r - of_int \<lfloor>r\<rfloor> < 1 / 2 then \<lfloor>r\<rfloor>
      else if 1 / 2 < r - of_int \<lfloor>r\<rfloor> then \<lfloor>r\<rfloor> + 1
      else if even \<lfloor>r\<rfloor> then \<lfloor>r\<rfloor> else \<lfloor>r\<rfloor> + 1)"

definition quantum :: "real \<Rightarrow> int" where
  "quantum x = max (\<lfloor>log 2 \<bar>x\<bar>\<rfloor> - 52) (- 1074)"

definition round_double :: "real \<Rightarrow> real" where
  "round_double x =
     (if x = 0 then 0
      else of_int (round_half_even (x / 2 powr of_int (quantum x))) * 2 powr of_int (quantum x))"

text \<open>
  \<^verbatim>\<open>x ** 2\<close> on a float calls the function \<^verbatim>\<open>pow\<close> of the C library, whose rounding the
  C standard leaves open: \<^verbatim>\<open>x ** 2\<close> and \<^verbatim>\<open>x * x\<close> differ in the last bit for some \<^verbatim>\<open>x\<close>.
  The libraries in use keep the error of \<^verbatim>\<open>pow\<close> below one unit in the last place, so
  its result is one of the two doubles that enclose the exact power, and the power
  itself when that is a double. \<open>round_down\<close> and \<open>round_up\<close> are these two doubles.
  Which of them is returned is the library's choice, the parameter \<open>up\<close> of the model:
  \<open>up t\<close> tells whether the exact value \<open>t\<close> is rounded up. Everything below that
  computes a square takes this parameter, and every theorem holds for every library.
\<close>

type_synonym libm = "real \<Rightarrow> bool"

definition round_down :: "real \<Rightarrow> real" where
  "round_down x =
     (if x = 0 then 0
      else of_int \<lfloor>x / 2 powr of_int (quantum x)\<rfloor> * 2 powr of_int (quantum x))"

definition round_up :: "real \<Rightarrow> real" where
  "round_up x =
     (if x = 0 then 0
      else of_int \<lceil>x / 2 powr of_int (quantum x)\<rceil> * 2 powr of_int (quantum x))"

definition round_faithful :: "libm \<Rightarrow> real \<Rightarrow> real" where
  "round_faithful up x = (if up x then round_up x else round_down x)"

text \<open>
  The value of a float expression: a finite double, an infinity or a NaN. \<open>to_double x\<close>
  is the double that an addition or subtraction with the exact result \<open>x\<close> returns:
  these operations overflow to an infinity and raise nothing.
\<close>

datatype double = Finite real | PInf | NInf | NaN

definition to_double :: "real \<Rightarrow> double" where
  "to_double x =
     (if 2 ^ 1024 \<le> round_double x then PInf
      else if round_double x \<le> - (2 ^ 1024) then NInf
      else Finite (round_double x))"

text \<open>
  \<^verbatim>\<open>x - y\<close> for two coordinates, which are finite floats (\<^verbatim>\<open>random.uniform\<close> between
  finite bounds), and \<^verbatim>\<open>x + y\<close> for any two doubles.
\<close>

definition double_sub :: "real \<Rightarrow> real \<Rightarrow> double" where
  "double_sub x y = to_double (x - y)"

fun double_add :: "double \<Rightarrow> double \<Rightarrow> double" where
  "double_add (Finite x) (Finite y) = to_double (x + y)"
| "double_add NaN y = NaN"
| "double_add x NaN = NaN"
| "double_add PInf NInf = NaN"
| "double_add NInf PInf = NaN"
| "double_add PInf y = PInf"
| "double_add x PInf = PInf"
| "double_add NInf y = NInf"
| "double_add x NInf = NInf"

text \<open>
  \<^verbatim>\<open>x ** 2\<close> on a float: the square as the library rounds it, and OverflowError
  ("Numerical result out of range") when the library's result for a finite float is
  too large for a double. A square that is too small for a double is 0.0 or the
  smallest positive double, without an exception. The square of an infinity is the
  positive infinity, without an exception.
\<close>

fun double_pow2 :: "libm \<Rightarrow> double \<Rightarrow> exn + double" where
  "double_pow2 up (Finite x) =
     (if 2 ^ 1024 \<le> round_faithful up (x * x) then Inl OverflowError
      else Inr (Finite (round_faithful up (x * x))))"
| "double_pow2 up PInf = Inr PInf"
| "double_pow2 up NInf = Inr PInf"
| "double_pow2 up NaN = Inr NaN"

text \<open>
  \<^verbatim>\<open>math.sqrt(x)\<close>: the rounded square root, ValueError ("math domain error") for a
  negative argument. \<^verbatim>\<open>x <= r\<close> for a double and a finite number: false for a NaN.
\<close>

fun math_sqrt :: "double \<Rightarrow> exn + double" where
  "math_sqrt (Finite x) =
     (if x < 0 then Inl ValueError else Inr (Finite (round_double (sqrt x))))"
| "math_sqrt PInf = Inr PInf"
| "math_sqrt NInf = Inl ValueError"
| "math_sqrt NaN = Inr NaN"

fun double_le :: "double \<Rightarrow> real \<Rightarrow> bool" where
  "double_le (Finite x) r = (x \<le> r)"
| "double_le PInf r = False"
| "double_le NInf r = True"
| "double_le NaN r = False"

section \<open>Topology generator\<close>

text \<open>
  \<^verbatim>\<open>def euclidean_distance(a, b):
      return math.sqrt((a[0]-b[0])**2 + (a[1]-b[1])**2)\<close>
  The left square is computed first, then the right one, then the sum and its root.
\<close>

definition euclidean_distance :: "libm \<Rightarrow> position \<Rightarrow> position \<Rightarrow> exn + double" where
  "euclidean_distance up a b =
     (case double_pow2 up (double_sub (fst a) (fst b)) of
        Inl e \<Rightarrow> Inl e
      | Inr dx2 \<Rightarrow>
          (case double_pow2 up (double_sub (snd a) (snd b)) of
             Inl e \<Rightarrow> Inl e
           | Inr dy2 \<Rightarrow> math_sqrt (double_add dx2 dy2)))"

text \<open>
  The energy half of \<^verbatim>\<open>generate_nodes\<close>:
  \<^verbatim>\<open>energy = {i: MAX_ENERGY for i in range(num_nodes)}\<close>. The positions are drawn at
  random there and are a parameter of everything below.
\<close>

definition initial_energy :: "int \<Rightarrow> energy" where
  "initial_energy num_nodes = (\<lambda>i. if 0 \<le> i \<and> i < num_nodes then Some MAX_ENERGY else None)"

text \<open>
  \<^verbatim>\<open>def connect_nodes(G, positions, tx_range):
      for i in positions:
          for j in positions:
              if i != j and euclidean_distance(positions[i], positions[j]) <= tx_range:
                  G.add_edge(i, j)\<close>
  \<open>in_range\<close> is the right operand of the \<^verbatim>\<open>and\<close>: the two lookups, the distance and
  the comparison with \<^verbatim>\<open>tx_range\<close>, a finite number. Both loops run over the keys of
  \<^verbatim>\<open>positions\<close>, so the KeyError of a lookup is never reached from \<open>connect_nodes\<close>.
  \<open>connect_row\<close> is the inner loop for one \<open>i\<close> and \<open>connect_rows\<close> the outer loop. An
  exception ends both loops; the result is the exception raised, if any, and the graph
  as the calls of \<^verbatim>\<open>add_edge\<close> have left it.
\<close>

definition keys :: "positions \<Rightarrow> node list" where
  "keys positions = map fst positions"

definition in_range :: "libm \<Rightarrow> positions \<Rightarrow> real \<Rightarrow> node \<Rightarrow> node \<Rightarrow> exn + bool" where
  "in_range up positions tx_range i j =
     (case map_of positions i of
        None \<Rightarrow> Inl KeyError
      | Some a \<Rightarrow>
          (case map_of positions j of
             None \<Rightarrow> Inl KeyError
           | Some b \<Rightarrow>
               (case euclidean_distance up a b of
                  Inl e \<Rightarrow> Inl e
                | Inr d \<Rightarrow> Inr (double_le d tx_range))))"

fun connect_row ::
  "libm \<Rightarrow> positions \<Rightarrow> real \<Rightarrow> node \<Rightarrow> node list \<Rightarrow> graph \<Rightarrow> exn option \<times> graph" where
  "connect_row up positions tx_range i [] G = (None, G)"
| "connect_row up positions tx_range i (j # js) G =
     (if i \<noteq> j then
        (case in_range up positions tx_range i j of
           Inl e \<Rightarrow> (Some e, G)
         | Inr close \<Rightarrow>
             connect_row up positions tx_range i js (if close then add_edge G i j else G))
      else connect_row up positions tx_range i js G)"

fun connect_rows ::
  "libm \<Rightarrow> positions \<Rightarrow> real \<Rightarrow> node list \<Rightarrow> graph \<Rightarrow> exn option \<times> graph" where
  "connect_rows up positions tx_range [] G = (None, G)"
| "connect_rows up positions tx_range (i # is) G =
     (case connect_row up positions tx_range i (keys positions) G of
        (Some e, G') \<Rightarrow> (Some e, G')
      | (None, G') \<Rightarrow> connect_rows up positions tx_range is G')"

definition connect_nodes :: "libm \<Rightarrow> graph \<Rightarrow> positions \<Rightarrow> real \<Rightarrow> exn option \<times> graph" where
  "connect_nodes up G positions tx_range =
     connect_rows up positions tx_range (keys positions) G"

text \<open>
  Lines 70 to 72, the only place where a graph is built:
  \<^verbatim>\<open>G = nx.Graph()
  G.add_nodes_from(positions)
  connect_nodes(G, positions, tx_range)\<close>
\<close>

definition topology :: "libm \<Rightarrow> positions \<Rightarrow> real \<Rightarrow> exn option \<times> graph" where
  "topology up positions tx_range =
     connect_nodes up (add_nodes_from empty_graph (keys positions)) positions tx_range"

section \<open>Shortest paths\<close>

text \<open>
  A route from \<open>source\<close> to \<open>sink\<close> is a non-empty sequence of nodes that starts at
  \<open>source\<close>, ends at \<open>sink\<close> and whose consecutive nodes are joined by an edge. Its
  number of hops is one less than its length.
\<close>

definition route :: "graph \<Rightarrow> node \<Rightarrow> node \<Rightarrow> node list \<Rightarrow> bool" where
  "route G source sink p =
     (p \<noteq> [] \<and> hd p = source \<and> last p = sink \<and> successively (has_edge G) p)"

definition hops :: "node list \<Rightarrow> nat" where
  "hops p = length p - 1"

text \<open>
  The decimal text of a Python int, as \<^verbatim>\<open>str\<close> and an f-string print it.
\<close>

definition digit_char :: "nat \<Rightarrow> char" where
  "digit_char n = ''0123456789'' ! (n mod 10)"

function digits :: "nat \<Rightarrow> string" where
  "digits n = (if n < 10 then [digit_char n] else digits (n div 10) @ [digit_char n])"
  by pat_completeness auto

termination
  by (relation "measure id") auto

definition str_int :: "int \<Rightarrow> string" where
  "str_int i = (if i < 0 then CHR ''-'' # digits (nat (- i)) else digits (nat i))"


text \<open>
  Modelled from the spec: \<^verbatim>\<open>nx.shortest_path(G, source=source, target=sink)\<close> is a
  function of the networkx library and is not part of the repository. The spec asks
  for an unweighted shortest path by breadth-first search or equivalent, any shortest
  path being acceptable. The model is a breadth-first search by levels: \<open>frontier\<close>
  holds, for every node first reached at the current level, the path that reached it
  (last node first), and \<open>seen\<close> holds every node reached so far. As the library
  does, the search first refuses an endpoint that is not a node of the graph, with
  the exception NodeNotFound and the message "Source s is not in G" or "Target t is
  not in G" (the descriptive refusal of section 7 of the spec; the source is looked at
  first), and it fails with NetworkXNoPath when the sink cannot be reached.
\<close>

definition candidates :: "graph \<Rightarrow> node list list \<Rightarrow> node list list" where
  "candidates G frontier =
     concat (map (\<lambda>p. map (\<lambda>w. w # p) (neighbors G (hd p))) frontier)"

fun fresh :: "node list \<Rightarrow> node list list \<Rightarrow> node list list" where
  "fresh seen [] = []"
| "fresh seen (p # ps) =
     (if hd p \<in> set seen then fresh seen ps else p # fresh (hd p # seen) ps)"

function bfs :: "graph \<Rightarrow> node \<Rightarrow> node list \<Rightarrow> node list list \<Rightarrow> node list option" where
  "bfs G target seen frontier =
     (case find (\<lambda>p. hd p = target) frontier of
        Some p \<Rightarrow> Some (rev p)
      | None \<Rightarrow>
          (if fresh seen (candidates G frontier) = [] then None
           else bfs G target
                  (map hd (fresh seen (candidates G frontier)) @ seen)
                  (fresh seen (candidates G frontier))))"
  by pat_completeness auto

text \<open>
  The search ends: every level that is not the last adds to \<open>seen\<close> a node of the
  adjacency lists that was not in it.
\<close>

lemma hd_fresh: "hd ` set (fresh seen cs) = hd ` set cs - set seen"
  by (induction cs arbitrary: seen) auto

lemma set_fresh: "set (fresh seen cs) \<subseteq> set cs"
  by (induction cs arbitrary: seen) auto

lemma neighbors_listed: "set (neighbors G u) \<subseteq> set (concat (map snd G))"
proof (cases "map_of G u")
  case None
  then show ?thesis by (simp add: neighbors_def)
next
  case (Some ns)
  then have "(u, ns) \<in> set G" by (rule map_of_SomeD)
  then show ?thesis using Some by (force simp: neighbors_def)
qed

lemma hd_candidates:
  "hd ` set (candidates G frontier) = (\<Union>p \<in> set frontier. set (neighbors G (hd p)))"
  by (auto simp: candidates_def image_iff)

termination bfs
proof (relation "measure (\<lambda>(G, target, seen, frontier). card (set (concat (map snd G)) - set seen))")
  show "wf (measure (\<lambda>(G, target, seen, frontier). card (set (concat (map snd G)) - set seen)))"
    by simp
next
  fix G :: graph and target :: node and seen :: "node list" and frontier :: "node list list"
  let ?U = "set (concat (map snd G))"
  let ?next = "fresh seen (candidates G frontier)"
  assume "?next \<noteq> []"
  then obtain p where p: "p \<in> set ?next"
    by (cases ?next) auto
  then have "hd p \<in> hd ` set ?next" by blast
  then have new: "hd p \<in> hd ` set (candidates G frontier)" "hd p \<notin> set seen"
    by (auto simp: hd_fresh)
  then have inU: "hd p \<in> ?U"
    using neighbors_listed[of G] by (auto simp: hd_candidates)
  have "?U - set (map hd ?next @ seen) \<subset> ?U - set seen"
    using p new(2) inU by auto
  then have "card (?U - set (map hd ?next @ seen)) < card (?U - set seen)"
    by (intro psubset_card_mono) auto
  then show "((G, target, map hd ?next @ seen, ?next), (G, target, seen, frontier))
       \<in> measure (\<lambda>(G, target, seen, frontier). card (set (concat (map snd G)) - set seen))"
    by simp
qed

definition shortest_path :: "graph \<Rightarrow> node \<Rightarrow> node \<Rightarrow> exn + node list" where
  "shortest_path G source target =
     (if \<not> has_node G source then
        Inl (NodeNotFound (''Source '' @ str_int source @ '' is not in G''))
      else if \<not> has_node G target then
        Inl (NodeNotFound (''Target '' @ str_int target @ '' is not in G''))
      else case bfs G target [source] [[source]] of
             None \<Rightarrow> Inl NetworkXNoPath
           | Some p \<Rightarrow> Inr p)"

section \<open>Router and simulator\<close>

text \<open>
  \<^verbatim>\<open>f"{sender} \<rightarrow> {receiver}"\<close>: the decimal text of the two ints (\<open>str_int\<close>)
  around an arrow. A string is a list of bytes here, so the arrow (U+2192) is its three
  UTF-8 bytes.
\<close>

definition arrow :: string where
  "arrow = [CHR 0xE2, CHR 0x86, CHR 0x92]"

definition hop_text :: "node \<Rightarrow> node \<Rightarrow> string" where
  "hop_text sender receiver = str_int sender @ '' '' @ arrow @ '' '' @ str_int receiver"

text \<open>
  \<^verbatim>\<open>energy[k] -= c\<close> reads \<^verbatim>\<open>energy[k]\<close> first and raises KeyError when the key is
  missing; the dictionary is then as it was.
\<close>

definition deduct :: "energy \<Rightarrow> node \<Rightarrow> int \<Rightarrow> exn + energy" where
  "deduct energy k c =
     (case energy k of
        None \<Rightarrow> Inl KeyError
      | Some e \<Rightarrow> Inr (energy(k \<mapsto> e - c)))"

text \<open>
  The body of the loop before the log line:
  \<^verbatim>\<open>if mac_protocol == "CSMA":
      energy[sender] -= TRANSMISSION_COST
      energy[receiver] -= RECEPTION_COST
  elif mac_protocol == "TDMA":
      energy[sender] -= TRANSMISSION_COST // 2
      energy[receiver] -= RECEPTION_COST // 2\<close>
  The result is the exception raised, if any, and the dictionary as the statements
  left it. Python's \<^verbatim>\<open>//\<close> by a positive number is \<open>div\<close> on \<open>int\<close>.
\<close>

definition charge :: "energy \<Rightarrow> node \<Rightarrow> node \<Rightarrow> int \<Rightarrow> int \<Rightarrow> exn option \<times> energy" where
  "charge energy sender receiver tx rx =
     (case deduct energy sender tx of
        Inl e \<Rightarrow> (Some e, energy)
      | Inr energy1 \<Rightarrow>
          (case deduct energy1 receiver rx of
             Inl e \<Rightarrow> (Some e, energy1)
           | Inr energy2 \<Rightarrow> (None, energy2)))"

definition mac_step :: "string \<Rightarrow> node \<Rightarrow> node \<Rightarrow> energy \<Rightarrow> exn option \<times> energy" where
  "mac_step mac_protocol sender receiver energy =
     (if mac_protocol = ''CSMA'' then
        charge energy sender receiver TRANSMISSION_COST RECEPTION_COST
      else if mac_protocol = ''TDMA'' then
        charge energy sender receiver (TRANSMISSION_COST div 2) (RECEPTION_COST div 2)
      else (None, energy))"

text \<open>
  \<^verbatim>\<open>for i in range(len(path)-1):
      sender = path[i]
      receiver = path[i+1]
      ...
      logs.append(f"{sender} \<rightarrow> {receiver}")\<close>
  as a recursion over the path: the first two nodes are the hop, and the loop goes on
  from the receiver; a path of fewer than two nodes has no hop left. An exception ends
  the loop with the energy as it stands.
\<close>

fun route_loop :: "string \<Rightarrow> node list \<Rightarrow> energy \<Rightarrow> string list \<Rightarrow> (exn + string list) \<times> energy" where
  "route_loop mac_protocol (sender # receiver # rest) energy logs =
     (case mac_step mac_protocol sender receiver energy of
        (Some e, energy') \<Rightarrow> (Inl e, energy')
      | (None, energy') \<Rightarrow>
          route_loop mac_protocol (receiver # rest) energy' (logs @ [hop_text sender receiver]))"
| "route_loop mac_protocol [] energy logs = (Inr logs, energy)"
| "route_loop mac_protocol [node] energy logs = (Inr logs, energy)"

text \<open>
  What a call leaves behind: the value returned or the exception raised, and the two
  mutable arguments (the energy dictionary and the graph) as they are after the call.
\<close>

record outcome =
  returned :: "exn + (node list option \<times> string list)"
  energy_after :: energy
  graph_after :: graph

text \<open>
  \<^verbatim>\<open>def simulate_routing(G, source, sink, energy, mac_protocol):
      try:
          path = nx.shortest_path(G, source=source, target=sink)
          logs = []
          for i in range(len(path)-1): ...
          return path, logs
      except nx.NetworkXNoPath:
          return None, ["No path found!"]\<close>
  Only NetworkXNoPath is caught; NodeNotFound and KeyError leave the function.
\<close>

definition simulate_routing :: "graph \<Rightarrow> node \<Rightarrow> node \<Rightarrow> energy \<Rightarrow> string \<Rightarrow> outcome" where
  "simulate_routing G source sink energy mac_protocol =
     (case shortest_path G source sink of
        Inl NetworkXNoPath \<Rightarrow>
          \<lparr>returned = Inr (None, [''No path found!'']), energy_after = energy, graph_after = G\<rparr>
      | Inl e \<Rightarrow>
          \<lparr>returned = Inl e, energy_after = energy, graph_after = G\<rparr>
      | Inr path \<Rightarrow>
          (case route_loop mac_protocol path energy [] of
             (Inl e, energy') \<Rightarrow>
               \<lparr>returned = Inl e, energy_after = energy', graph_after = G\<rparr>
           | (Inr logs, energy') \<Rightarrow>
               \<lparr>returned = Inr (Some path, logs), energy_after = energy', graph_after = G\<rparr>))"

section \<open>Vocabulary of the proofs and of the claims\<close>

text \<open>
  The senders of a path are all its nodes but the last, its receivers all but the
  first; the transcript of a path is the list of its hop lines. \<open>costs\<close> reads the cost
  pair of a policy off the two branches of \<open>mac_step\<close>, and \<open>charged energy p tx rx\<close>
  is the energy map in which every node has lost \<open>tx\<close> for each hop of \<open>p\<close> it sends
  and \<open>rx\<close> for each hop of \<open>p\<close> it receives.
\<close>

definition senders :: "node list \<Rightarrow> node list" where
  "senders p = butlast p"

definition receivers :: "node list \<Rightarrow> node list" where
  "receivers p = tl p"

definition transcript :: "node list \<Rightarrow> string list" where
  "transcript p = map (\<lambda>(sender, receiver). hop_text sender receiver) (zip p (tl p))"

definition costs :: "string \<Rightarrow> (int \<times> int) option" where
  "costs mac_protocol =
     (if mac_protocol = ''CSMA'' then Some (TRANSMISSION_COST, RECEPTION_COST)
      else if mac_protocol = ''TDMA'' then Some (TRANSMISSION_COST div 2, RECEPTION_COST div 2)
      else None)"

definition charged :: "energy \<Rightarrow> node list \<Rightarrow> int \<Rightarrow> int \<Rightarrow> energy" where
  "charged energy p tx rx =
     (\<lambda>n. map_option
        (\<lambda>v. v - tx * int (count_list (senders p) n) - rx * int (count_list (receivers p) n))
        (energy n))"

text \<open>
  A shortest route is a route that no route between the same nodes beats in hops.
  \<open>unreachable G source sink\<close>: no route leads from \<open>source\<close> to \<open>sink\<close>, which for
  two nodes of an undirected graph says that they lie in different connected
  components.
\<close>

definition shortest_route :: "graph \<Rightarrow> node \<Rightarrow> node \<Rightarrow> node list \<Rightarrow> bool" where
  "shortest_route G source sink p =
     (route G source sink p \<and> (\<forall>q. route G source sink q \<longrightarrow> hops p \<le> hops q))"

definition unreachable :: "graph \<Rightarrow> node \<Rightarrow> node \<Rightarrow> bool" where
  "unreachable G source sink = (\<forall>p. \<not> route G source sink p)"

text \<open>
  For the proof that the search is right: \<open>reach G s n\<close> is the set of nodes that a
  route from \<open>s\<close> of at most \<open>n\<close> nodes ends in. At the level whose paths have \<open>n\<close>
  nodes, \<open>seen\<close> is \<open>reach G s n\<close>, the frontier ends in the nodes of \<open>reach G s n\<close>
  that are not in \<open>reach G s (n - 1)\<close>, and the target is not in \<open>reach G s (n - 1)\<close>.
\<close>

definition reach :: "graph \<Rightarrow> node \<Rightarrow> nat \<Rightarrow> node set" where
  "reach G s n = {v. \<exists>p. route G s v p \<and> length p \<le> n}"

definition bfs_inv :: "graph \<Rightarrow> node \<Rightarrow> node \<Rightarrow> nat \<Rightarrow> node list \<Rightarrow> node list list \<Rightarrow> bool" where
  "bfs_inv G s t n seen frontier =
     (1 \<le> n \<and>
      (\<forall>rp \<in> set frontier. route G s (hd rp) (rev rp) \<and> length rp = n) \<and>
      set seen = reach G s n \<and>
      hd ` set frontier = reach G s n - reach G s (n - 1) \<and>
      t \<notin> reach G s (n - 1))"

text \<open>
  The inputs on which the theorems are instantiated: \<open>line_graph\<close> is three nodes in a
  row, 0 - 1 - 2; \<open>spur_graph\<close> is that line with a fourth node 3 hanging off node 2;
  \<open>two_islands\<close> is two nodes and no edge; \<open>three_nodes\<close> are the positions (0,0),
  (1,0), (2,0) of the spec's scenario; \<open>far_pair\<close> are two nodes at distance 2;
  \<open>near_pair\<close> are two nodes at a distance slightly above 1; \<open>skew_pair\<close> are two
  nodes at a distance slightly above 5, the second at (3, 4) with its first coordinate
  one unit in the last place larger; \<open>huge_pair\<close> are two nodes so far apart that the
  square of their distance is no double.
\<close>

definition line_graph :: graph where
  "line_graph = [(0, [1]), (1, [0, 2]), (2, [1])]"

definition spur_graph :: graph where
  "spur_graph = [(0, [1]), (1, [0, 2]), (2, [1, 3]), (3, [2])]"

definition two_islands :: graph where
  "two_islands = [(0, []), (1, [])]"


definition far_pair :: positions where
  "far_pair = [(0, (0, 0)), (1, (2, 0))]"

definition near_pair :: positions where
  "near_pair = [(0, (0, 0)), (1, (1, 1 / 2 ^ 30))]"

definition skew_pair :: positions where
  "skew_pair = [(0, (0, 0)), (1, (3 + 1 / 2 ^ 51, 4))]"

definition huge_pair :: positions where
  "huge_pair = [(0, (0, 0)), (1, (2 ^ 600, 0))]"


section \<open>Properties of the graph operations\<close>

lemma has_node_add_node: "has_node (add_node G n) m \<longleftrightarrow> has_node G m \<or> m = n"
  by (auto simp: add_node_def has_node_def nodes_def)

lemma neighbors_add_node: "neighbors (add_node G n) m = neighbors G m"
proof (cases "map_of G m")
  case None
  then show ?thesis by (simp add: add_node_def neighbors_def map_add_def)
next
  case (Some ns)
  then show ?thesis by (simp add: add_node_def neighbors_def map_add_def)
qed

lemma has_node_add_neighbor: "has_node (add_neighbor G u v) m = has_node G m"
  by (induction G) (auto simp: add_neighbor_def has_node_def nodes_def)

lemma map_of_add_neighbor:
  "map_of (add_neighbor G u v) m =
     map_option (\<lambda>ns. if m = u \<and> v \<notin> set ns then ns @ [v] else ns) (map_of G m)"
proof (induction G)
  case Nil
  then show ?case by (simp add: add_neighbor_def)
next
  case (Cons e G)
  obtain k ns where e: "e = (k, ns)" by (cases e)
  from Cons show ?case
    by (simp add: add_neighbor_def e)
qed

lemma has_node_map_of: "has_node G m \<longleftrightarrow> map_of G m \<noteq> None"
  by (simp add: has_node_def nodes_def map_of_eq_None_iff)

lemma neighbors_add_neighbor:
  "set (neighbors (add_neighbor G u v) m) =
     (if m = u \<and> has_node G u then insert v (set (neighbors G u)) else set (neighbors G m))"
proof (cases "map_of G m")
  case None
  then show ?thesis
    by (auto simp add: neighbors_def map_of_add_neighbor has_node_map_of)
next
  case (Some ns)
  then show ?thesis
    by (auto simp add: neighbors_def map_of_add_neighbor has_node_map_of)
qed

lemma has_edge_add_edge:
  "has_edge (add_edge G u v) a b \<longleftrightarrow> has_edge G a b \<or> (a = u \<and> b = v) \<or> (a = v \<and> b = u)"
  by (auto simp: has_edge_def add_edge_def neighbors_add_neighbor neighbors_add_node
      has_node_add_neighbor has_node_add_node)

lemma has_node_add_edge: "has_node (add_edge G u v) m \<longleftrightarrow> has_node G m \<or> m = u \<or> m = v"
  by (auto simp: add_edge_def has_node_add_neighbor has_node_add_node)

lemma has_node_add_nodes_from:
  "has_node (add_nodes_from G ns) m \<longleftrightarrow> has_node G m \<or> m \<in> set ns"
  unfolding add_nodes_from_def
  by (induction ns arbitrary: G) (auto simp: has_node_add_node)

lemma neighbors_add_nodes_from: "neighbors (add_nodes_from G ns) m = neighbors G m"
  unfolding add_nodes_from_def
  by (induction ns arbitrary: G) (auto simp: neighbors_add_node)

subsection \<open>Rounding\<close>

lemma round_half_even_of_int: "round_half_even (of_int k) = k"
  by (simp add: round_half_even_def)

lemma round_half_even_minus: "round_half_even (- r) = - round_half_even r"
proof (cases "\<exists>k. r = of_int k")
  case True
  then obtain k where "r = of_int k" ..
  then show ?thesis
    using round_half_even_of_int[of k] round_half_even_of_int[of "- k"] by simp
next
  case False
  then have ne: "r \<noteq> of_int \<lfloor>r\<rfloor>" by metis
  then have "\<lceil>r\<rceil> = \<lfloor>r\<rfloor> + 1"
    by (simp only: ceiling_altdef if_False)
  then have fl: "\<lfloor>- r\<rfloor> = - \<lfloor>r\<rfloor> - 1"
    by (simp add: floor_minus)
  have lo: "of_int \<lfloor>r\<rfloor> < r"
    using ne of_int_floor_le[of r] by (metis less_le)
  show ?thesis
    unfolding round_half_even_def fl
    using lo by (auto simp: algebra_simps)
qed

lemma quantum_minus: "quantum (- x) = quantum x"
  by (simp add: quantum_def)

lemma round_double_minus: "round_double (- x) = - round_double x"
  by (simp add: round_double_def quantum_minus round_half_even_minus)

lemma round_double_0: "round_double 0 = 0"
  by (simp add: round_double_def)


lemma floor_log2:
  assumes "2 powr of_int e \<le> \<bar>x\<bar>" and "\<bar>x\<bar> < 2 powr of_int (e + 1)"
  shows "\<lfloor>log 2 \<bar>x\<bar>\<rfloor> = e"
proof -
  have pos: "0 < \<bar>x\<bar>"
    using assms(1) powr_gt_zero[of 2 "of_int e"] by linarith
  have "of_int e \<le> log 2 \<bar>x\<bar>"
    using assms(1) pos by (simp add: le_log_iff)
  moreover have "log 2 \<bar>x\<bar> < of_int e + 1"
    using assms(2) pos by (simp add: log_less_iff)
  ultimately show ?thesis by (simp add: floor_eq_iff)
qed

lemma round_double_exact:
  assumes "x = of_int m * 2 powr of_int (quantum x)"
  shows "round_double x = x"
proof (cases "x = 0")
  case True
  then show ?thesis by (simp add: round_double_def)
next
  case False
  have "x / 2 powr of_int (quantum x) = of_int m"
    using assms by (metis nonzero_eq_divide_eq powr_non_neg powr_eq_0_iff zero_neq_numeral)
  then have "round_half_even (x / 2 powr of_int (quantum x)) = m"
    by (simp add: round_half_even_of_int)
  with False assms show ?thesis by (simp add: round_double_def)
qed

lemma quantum_1: "quantum 1 = - 52"
  by (simp add: quantum_def)

lemma quantum_2: "quantum 2 = - 51"
  by (simp add: quantum_def)

lemma quantum_4: "quantum 4 = - 50"
proof -
  have "\<lfloor>log 2 \<bar>4::real\<bar>\<rfloor> = 2"
    by (rule floor_log2) simp_all
  then show ?thesis by (simp add: quantum_def)
qed

lemma round_double_1: "round_double 1 = 1"
  by (rule round_double_exact[where m = "2 ^ 52"]) (simp add: quantum_1 powr_minus)

lemma round_double_2: "round_double 2 = 2"
  by (rule round_double_exact[where m = "2 ^ 52"]) (simp add: quantum_2 powr_minus)

lemma round_double_4: "round_double 4 = 4"
  by (rule round_double_exact[where m = "2 ^ 52"]) (simp add: quantum_4 powr_minus)

lemma round_half_even_le:
  assumes "r \<le> of_int n"
  shows "round_half_even r \<le> n"
proof -
  have fl: "\<lfloor>r\<rfloor> \<le> n"
    using assms by (simp add: floor_le_iff)
  show ?thesis
  proof (cases "r - of_int \<lfloor>r\<rfloor> < 1 / 2")
    case True
    with fl show ?thesis by (simp add: round_half_even_def)
  next
    case False
    then have "of_int \<lfloor>r\<rfloor> < r" by linarith
    with assms have "(of_int \<lfloor>r\<rfloor> :: real) < of_int n" by linarith
    then have "\<lfloor>r\<rfloor> < n" by (simp only: of_int_less_iff)
    then show ?thesis by (simp add: round_half_even_def)
  qed
qed

lemma round_half_even_ge:
  assumes "of_int n \<le> r"
  shows "n \<le> round_half_even r"
proof -
  have "n \<le> \<lfloor>r\<rfloor>"
    using assms by (simp add: le_floor_iff)
  then show ?thesis by (simp add: round_half_even_def)
qed

lemma round_half_even_near:
  assumes "0 \<le> f" and "f < 1 / 2"
  shows "round_half_even (of_int k + f) = k"
proof -
  have "\<lfloor>of_int k + f\<rfloor> = k"
    using assms by (simp add: floor_eq_iff)
  with assms show ?thesis by (simp add: round_half_even_def)
qed

lemma round_double_nonneg:
  assumes "0 \<le> x"
  shows "0 \<le> round_double x"
proof (cases "x = 0")
  case True
  then show ?thesis by (simp add: round_double_def)
next
  case False
  have "of_int 0 \<le> x / 2 powr of_int (quantum x)"
    using assms by simp
  then have "0 \<le> round_half_even (x / 2 powr of_int (quantum x))"
    by (rule round_half_even_ge)
  with False show ?thesis by (simp add: round_double_def)
qed

lemma round_faithful_nonneg:
  assumes "0 \<le> x"
  shows "0 \<le> round_faithful up x"
proof -
  have "0 \<le> x / 2 powr of_int (quantum x)"
    using assms by simp
  then have "0 \<le> \<lfloor>x / 2 powr of_int (quantum x)\<rfloor>" "0 \<le> \<lceil>x / 2 powr of_int (quantum x)\<rceil>"
    by (simp_all add: le_floor_iff)
  then show ?thesis
    by (simp add: round_faithful_def round_down_def round_up_def)
qed

lemma pow2_multiple_of_unit:
  assumes "0 < x" and "x \<le> 2 ^ k"
  shows "\<exists>N::int. of_int N * 2 powr of_int (quantum x) = (2::real) ^ k \<and>
                 x / 2 powr of_int (quantum x) \<le> of_int N"
proof -
  let ?q = "quantum x"
  have "log 2 x \<le> of_nat k"
    using assms by (simp add: log_le_iff powr_realpow)
  then have "\<lfloor>log 2 \<bar>x\<bar>\<rfloor> \<le> int k"
    using assms(1) by (simp add: floor_le_iff)
  then have q: "?q \<le> int k"
    by (simp add: quantum_def)
  define N :: int where "N = 2 ^ nat (int k - ?q)"
  have "2 powr of_int (int k - ?q) = (2::real) ^ nat (int k - ?q)"
    using q powr_realpow[of 2 "nat (int k - ?q)"] by simp
  then have N: "of_int N = (2::real) powr of_int (int k - ?q)"
    by (simp add: N_def)
  have pk: "(2::real) ^ k = 2 powr of_int (int k)"
    using powr_realpow[of 2 k] by simp
  have split: "(2::real) powr of_int (int k) = 2 powr of_int (int k - ?q) * 2 powr of_int ?q"
    by (simp add: powr_add[symmetric])
  have "x / 2 powr of_int ?q \<le> 2 powr of_int (int k) / 2 powr of_int ?q"
    using assms(2) pk by (simp add: divide_right_mono)
  also have "\<dots> = of_int N"
    using split N by simp
  finally have "x / 2 powr of_int ?q \<le> of_int N" .
  moreover have "of_int N * 2 powr of_int ?q = (2::real) ^ k"
    using split N pk by simp
  ultimately show ?thesis by blast
qed

lemma round_double_le_pow2:
  assumes "0 \<le> x" and "x \<le> 2 ^ k"
  shows "round_double x \<le> 2 ^ k"
proof (cases "x = 0")
  case True
  then show ?thesis by (simp add: round_double_def)
next
  case False
  with assms(1) have "0 < x" by simp
  from pow2_multiple_of_unit[OF this assms(2)] obtain N :: int
    where N: "of_int N * 2 powr of_int (quantum x) = (2::real) ^ k"
      and le: "x / 2 powr of_int (quantum x) \<le> of_int N"
    by blast
  from le have "round_half_even (x / 2 powr of_int (quantum x)) \<le> N"
    by (rule round_half_even_le)
  then have "of_int (round_half_even (x / 2 powr of_int (quantum x))) * 2 powr of_int (quantum x)
      \<le> of_int N * (2::real) powr of_int (quantum x)"
    by (simp add: mult_right_mono)
  with N False show ?thesis
    by (simp add: round_double_def)
qed

lemma round_double_abs_le_pow2:
  assumes "\<bar>x\<bar> \<le> 2 ^ k"
  shows "\<bar>round_double x\<bar> \<le> 2 ^ k"
proof (cases "0 \<le> x")
  case True
  with assms have "round_double x \<le> 2 ^ k" by (simp add: round_double_le_pow2)
  with round_double_nonneg[OF True] show ?thesis by simp
next
  case False
  then have n: "0 \<le> - x" by simp
  with assms have "round_double (- x) \<le> 2 ^ k" by (simp add: round_double_le_pow2)
  with round_double_nonneg[OF n] show ?thesis by (simp add: round_double_minus)
qed

lemma round_faithful_le_pow2:
  assumes "0 \<le> x" and "x \<le> 2 ^ k"
  shows "round_faithful up x \<le> 2 ^ k"
proof (cases "x = 0")
  case True
  then show ?thesis by (simp add: round_faithful_def round_down_def round_up_def)
next
  case False
  with assms(1) have "0 < x" by simp
  from pow2_multiple_of_unit[OF this assms(2)] obtain N :: int
    where N: "of_int N * 2 powr of_int (quantum x) = (2::real) ^ k"
      and le: "x / 2 powr of_int (quantum x) \<le> of_int N"
    by blast
  from le have c: "\<lceil>x / 2 powr of_int (quantum x)\<rceil> \<le> N"
    by (simp add: ceiling_le_iff)
  have "\<lfloor>x / 2 powr of_int (quantum x)\<rfloor> \<le> \<lceil>x / 2 powr of_int (quantum x)\<rceil>"
    by (rule floor_le_ceiling)
  with c have f: "\<lfloor>x / 2 powr of_int (quantum x)\<rfloor> \<le> N" by linarith
  from c have "of_int \<lceil>x / 2 powr of_int (quantum x)\<rceil> * 2 powr of_int (quantum x)
      \<le> of_int N * (2::real) powr of_int (quantum x)"
    by (simp add: mult_right_mono)
  moreover from f have "of_int \<lfloor>x / 2 powr of_int (quantum x)\<rfloor> * 2 powr of_int (quantum x)
      \<le> of_int N * (2::real) powr of_int (quantum x)"
    by (simp add: mult_right_mono)
  ultimately show ?thesis
    using N False by (simp add: round_faithful_def round_down_def round_up_def)
qed

lemma round_faithful_exact:
  assumes "round_double x = x"
  shows "round_faithful up x = x"
proof (cases "x = 0")
  case True
  then show ?thesis by (simp add: round_faithful_def round_down_def round_up_def)
next
  case False
  let ?u = "(2::real) powr of_int (quantum x)"
  define k where "k = round_half_even (x / ?u)"
  have u: "0 < ?u" by simp
  from assms False have x: "of_int k * ?u = x"
    by (simp add: round_double_def k_def)
  then have "x / ?u = of_int k"
    using u by (simp add: field_simps)
  then have "\<lfloor>x / ?u\<rfloor> = k" "\<lceil>x / ?u\<rceil> = k"
    by simp_all
  with x False show ?thesis
    by (simp add: round_faithful_def round_down_def round_up_def)
qed

lemma inverse_pow2_powr: "(1::real) / 2 ^ n = 2 powr of_int (- int n)"
  using powr_realpow[of 2 n] by (simp add: powr_minus divide_simps)

lemma quantum_inverse_pow2:
  assumes "n \<le> 1022"
  shows "quantum (1 / 2 ^ n) = - int n - 52"
proof -
  have "\<lfloor>log 2 \<bar>1 / 2 ^ n :: real\<bar>\<rfloor> = - int n"
  proof (rule floor_log2)
    have "(0::real) < 1 / 2 ^ n" by simp
    then have a: "\<bar>1 / 2 ^ n :: real\<bar> = 2 powr of_int (- int n)"
      by (simp only: inverse_pow2_powr[symmetric] abs_of_pos)
    show "2 powr of_int (- int n) \<le> \<bar>1 / 2 ^ n :: real\<bar>"
      by (simp only: a order_refl)
    have "(2::real) powr (of_int (- int n) + 1) = 2 powr of_int (- int n) * 2 powr 1"
      by (rule powr_add)
    then have "(2::real) powr of_int (- int n + 1) = 2 * 2 powr of_int (- int n)"
      by (simp add: add.commute)
    then show "\<bar>1 / 2 ^ n :: real\<bar> < 2 powr of_int (- int n + 1)"
      by (simp only: a) simp
  qed
  with assms show ?thesis by (simp add: quantum_def)
qed

lemma round_double_inverse_pow2:
  assumes "n \<le> 1022"
  shows "round_double (1 / 2 ^ n) = 1 / 2 ^ n"
proof (rule round_double_exact[where m = "2 ^ 52"])
  have q: "quantum (1 / 2 ^ n) = - int n - 52"
    using assms by (rule quantum_inverse_pow2)
  have "(2::real) powr (52 + of_int (- int n - 52)) = 2 powr 52 * 2 powr of_int (- int n - 52)"
    by (rule powr_add)
  then have h: "(2::real) powr of_int (- int n) = of_int (2 ^ 52) * 2 powr of_int (- int n - 52)"
    by simp
  show "(1::real) / 2 ^ n = of_int (2 ^ 52) * 2 powr of_int (quantum (1 / 2 ^ n))"
    unfolding q using h by (simp only: inverse_pow2_powr)
qed

lemma round_double_near_1: "round_double (1 + 1 / 2 ^ 60) = 1"
proof -
  let ?x = "1 + 1 / 2 ^ 60 :: real"
  have "\<lfloor>log 2 \<bar>?x\<bar>\<rfloor> = 0"
    by (rule floor_log2) simp_all
  then have q: "quantum ?x = - 52"
    by (simp add: quantum_def)
  have "?x / 2 powr of_int (- 52) = of_int (2 ^ 52) + 1 / 2 ^ 8"
    by (simp add: powr_minus)
  moreover have "round_half_even (of_int (2 ^ 52) + 1 / 2 ^ 8) = 2 ^ 52"
    by (rule round_half_even_near) simp_all
  ultimately have "round_half_even (?x / 2 powr of_int (quantum ?x)) = 2 ^ 52"
    by (simp only: q)
  moreover have "?x \<noteq> 0" by simp
  ultimately have "round_double ?x = of_int (2 ^ 52) * 2 powr of_int (- 52)"
    by (simp only: round_double_def q if_False)
  then show ?thesis by (simp add: powr_minus)
qed

lemma round_half_even_tie:
  assumes "even k"
  shows "round_half_even (of_int k + 1 / 2) = k"
proof -
  have "\<lfloor>of_int k + 1 / 2 :: real\<rfloor> = k"
    by (simp add: floor_eq_iff)
  with assms show ?thesis by (simp add: round_half_even_def)
qed

lemma quantum_pow2: "quantum (2 ^ n) = int n - 52"
proof -
  have p: "(2::real) ^ n = 2 powr of_int (int n)"
    using powr_realpow[of 2 n] by simp
  have "\<lfloor>log 2 \<bar>2 ^ n :: real\<bar>\<rfloor> = int n"
  proof (rule floor_log2)
    have a: "\<bar>2 ^ n :: real\<bar> = 2 powr of_int (int n)"
      using p by simp
    show "2 powr of_int (int n) \<le> \<bar>2 ^ n :: real\<bar>"
      by (simp only: a order_refl)
    have "(2::real) powr (of_int (int n) + 1) = 2 powr of_int (int n) * 2 powr 1"
      by (rule powr_add)
    then have "(2::real) powr of_int (int n + 1) = 2 * 2 powr of_int (int n)"
      by (simp add: add.commute)
    then show "\<bar>2 ^ n :: real\<bar> < 2 powr of_int (int n + 1)"
      by (simp only: a) simp
  qed
  then show ?thesis by (simp add: quantum_def)
qed

lemma round_double_pow2: "round_double (2 ^ n) = 2 ^ n"
proof (rule round_double_exact[where m = "2 ^ 52"])
  have "(2::real) powr (52 + of_int (int n - 52)) = 2 powr 52 * 2 powr of_int (int n - 52)"
    by (rule powr_add)
  then have h: "(2::real) powr of_int (int n) = of_int (2 ^ 52) * 2 powr of_int (int n - 52)"
    by simp
  have p: "(2::real) ^ n = 2 powr of_int (int n)"
    using powr_realpow[of 2 n] by simp
  show "(2::real) ^ n = of_int (2 ^ 52) * 2 powr of_int (quantum (2 ^ n))"
    unfolding quantum_pow2 using h by (simp only: p)
qed

lemma quantum_nat:
  assumes "2 ^ e \<le> \<bar>x\<bar>" and "\<bar>x\<bar> < 2 ^ Suc e"
  shows "quantum x = int e - 52"
proof -
  have p: "(2::real) powr of_int (int e) = 2 ^ e" "(2::real) powr of_int (int e + 1) = 2 ^ Suc e"
    using powr_realpow[of 2 e] powr_realpow[of 2 "Suc e"] by (simp_all add: add.commute)
  have "\<lfloor>log 2 \<bar>x\<bar>\<rfloor> = int e"
    by (rule floor_log2) (simp_all only: p assms)
  then show ?thesis by (simp add: quantum_def)
qed

lemma unit_nat:
  assumes "e \<le> 52"
  shows "(2::real) powr of_int (int e - 52) = 1 / 2 ^ (52 - e)"
proof -
  have "of_int (int e - 52) = - real (52 - e)"
    using assms by simp
  then have "(2::real) powr of_int (int e - 52) = 2 powr (- real (52 - e))"
    by (simp only:)
  also have "\<dots> = 1 / 2 powr real (52 - e)"
    by (rule powr_minus_divide)
  also have "(2::real) powr real (52 - e) = 2 ^ (52 - e)"
    by (rule powr_realpow) simp
  finally show ?thesis .
qed

lemma rounding_nat:
  assumes "2 ^ e \<le> \<bar>x\<bar>" and "\<bar>x\<bar> < 2 ^ Suc e" and "e \<le> 52"
  shows "round_double x = of_int (round_half_even (x * 2 ^ (52 - e))) / 2 ^ (52 - e)"
    and "round_down x = of_int \<lfloor>x * 2 ^ (52 - e)\<rfloor> / 2 ^ (52 - e)"
    and "round_up x = of_int \<lceil>x * 2 ^ (52 - e)\<rceil> / 2 ^ (52 - e)"
proof -
  have q: "(2::real) powr of_int (quantum x) = 1 / 2 ^ (52 - e)"
    using quantum_nat[OF assms(1,2)] unit_nat[OF assms(3)] by simp
  have "(0::real) < 2 ^ e" by simp
  with assms(1) have "0 < \<bar>x\<bar>" by linarith
  then have nz: "x \<noteq> 0" by simp
  show "round_double x = of_int (round_half_even (x * 2 ^ (52 - e))) / 2 ^ (52 - e)"
    using nz by (simp add: round_double_def q)
  show "round_down x = of_int \<lfloor>x * 2 ^ (52 - e)\<rfloor> / 2 ^ (52 - e)"
    using nz by (simp add: round_down_def q)
  show "round_up x = of_int \<lceil>x * 2 ^ (52 - e)\<rceil> / 2 ^ (52 - e)"
    using nz by (simp add: round_up_def q)
qed

lemma to_double_finite:
  assumes "\<bar>round_double x\<bar> < 2 ^ 1024"
  shows "to_double x = Finite (round_double x)"
  using assms by (simp add: to_double_def abs_less_iff)

lemma to_double_small:
  assumes "round_double x = y" and "\<bar>y\<bar> < 2 ^ 1024"
  shows "to_double x = Finite y"
  using assms to_double_finite[of x] by simp

lemma double_pow2_to_double_minus:
  "double_pow2 up (to_double (- x)) = double_pow2 up (to_double x)"
  by (simp add: to_double_def round_double_minus)

lemma euclidean_distance_commute: "euclidean_distance up a b = euclidean_distance up b a"
proof -
  have sym: "double_pow2 up (double_sub y x) = double_pow2 up (double_sub x y)" for x y
    using double_pow2_to_double_minus[of up "x - y"] by (simp add: double_sub_def)
  show ?thesis
    unfolding euclidean_distance_def
    by (simp only: sym[of "fst a" "fst b"] sym[of "snd a" "snd b"])
qed

subsection \<open>The loops of connect_nodes\<close>

lemma in_range_commute: "in_range up positions r i j = in_range up positions r j i"
  by (auto simp: in_range_def euclidean_distance_commute split: option.splits)

lemma in_range_keys:
  assumes "in_range up positions r i j = Inr c"
  shows "i \<in> set (keys positions) \<and> j \<in> set (keys positions)"
proof -
  from assms obtain a b where "map_of positions i = Some a" "map_of positions j = Some b"
    by (auto simp: in_range_def split: option.splits)
  then have "(i, a) \<in> set positions" "(j, b) \<in> set positions"
    by (auto dest: map_of_SomeD)
  then show ?thesis by (force simp: keys_def)
qed

lemma connect_row_edges:
  assumes "connect_row up positions r i js G = (None, G')"
  shows "has_edge G' a b \<longleftrightarrow>
     has_edge G a b \<or>
     (\<exists>j \<in> set js. i \<noteq> j \<and> in_range up positions r i j = Inr True \<and>
        (a = i \<and> b = j \<or> a = j \<and> b = i))"
  using assms
proof (induction js arbitrary: G)
  case Nil
  then show ?case by simp
next
  case (Cons j js)
  show ?case
  proof (cases "i = j")
    case True
    with Cons.prems have "connect_row up positions r i js G = (None, G')" by simp
    from Cons.IH[OF this] True show ?thesis by auto
  next
    case False
    with Cons.prems obtain c where c: "in_range up positions r i j = Inr c"
      by (cases "in_range up positions r i j") auto
    with Cons.prems False
    have "connect_row up positions r i js (if c then add_edge G i j else G) = (None, G')"
      by simp
    from Cons.IH[OF this] c False show ?thesis
      by (cases c) (auto simp: has_edge_add_edge)
  qed
qed

lemma connect_row_defined:
  assumes "connect_row up positions r i js G = (None, G')" and "j \<in> set js" and "i \<noteq> j"
  shows "\<exists>c. in_range up positions r i j = Inr c"
  using assms
proof (induction js arbitrary: G)
  case Nil
  then show ?case by simp
next
  case (Cons k js)
  show ?case
  proof (cases "i = k")
    case True
    with Cons.prems have "connect_row up positions r i js G = (None, G')" "j \<in> set js"
      by auto
    from Cons.IH[OF this Cons.prems(3)] show ?thesis .
  next
    case False
    with Cons.prems(1) obtain c where c: "in_range up positions r i k = Inr c"
      by (cases "in_range up positions r i k") auto
    with Cons.prems(1) False
    have rest: "connect_row up positions r i js (if c then add_edge G i k else G) = (None, G')"
      by simp
    show ?thesis
    proof (cases "j = k")
      case True
      with c show ?thesis by blast
    next
      case False
      with Cons.prems(2) have "j \<in> set js" by simp
      from Cons.IH[OF rest this Cons.prems(3)] show ?thesis .
    qed
  qed
qed

lemma connect_row_nodes:
  assumes "connect_row up positions r i js G = (e, G')"
  shows "set (nodes G) \<subseteq> set (nodes G') \<and> set (nodes G') \<subseteq> set (nodes G) \<union> {i} \<union> set js"
  using assms
proof (induction js arbitrary: G)
  case Nil
  then show ?case by auto
next
  case (Cons j js)
  show ?case
  proof (cases "i = j")
    case True
    with Cons.prems have "connect_row up positions r i js G = (e, G')" by simp
    from Cons.IH[OF this] show ?thesis by auto
  next
    case False
    show ?thesis
    proof (cases "in_range up positions r i j")
      case (Inl x)
      with Cons.prems False show ?thesis by auto
    next
      case (Inr c)
      with Cons.prems False
      have "connect_row up positions r i js (if c then add_edge G i j else G) = (e, G')"
        by simp
      from Cons.IH[OF this] show ?thesis
        using has_node_add_edge[of G i j] by (cases c) (auto simp: has_node_def)
    qed
  qed
qed

lemma connect_rows_edges:
  assumes "connect_rows up positions r is G = (None, G')"
  shows "has_edge G' a b \<longleftrightarrow>
     has_edge G a b \<or>
     (\<exists>i \<in> set is. \<exists>j \<in> set (keys positions).
        i \<noteq> j \<and> in_range up positions r i j = Inr True \<and> (a = i \<and> b = j \<or> a = j \<and> b = i))"
  using assms
proof (induction "is" arbitrary: G)
  case Nil
  then show ?case by simp
next
  case (Cons i "is")
  from Cons.prems obtain H where row: "connect_row up positions r i (keys positions) G = (None, H)"
    and rest: "connect_rows up positions r is H = (None, G')"
    by (auto split: prod.splits option.splits)
  from Cons.IH[OF rest] connect_row_edges[OF row, of a b] show ?case
    by auto
qed

lemma connect_rows_defined:
  assumes "connect_rows up positions r is G = (None, G')"
    and "i \<in> set is" and "j \<in> set (keys positions)" and "i \<noteq> j"
  shows "\<exists>c. in_range up positions r i j = Inr c"
  using assms
proof (induction "is" arbitrary: G)
  case Nil
  then show ?case by simp
next
  case (Cons k "is")
  from Cons.prems(1) obtain H where row: "connect_row up positions r k (keys positions) G = (None, H)"
    and rest: "connect_rows up positions r is H = (None, G')"
    by (auto split: prod.splits option.splits)
  show ?case
  proof (cases "i = k")
    case True
    with connect_row_defined[OF row Cons.prems(3)] Cons.prems(4) show ?thesis by simp
  next
    case False
    with Cons.prems(2) have "i \<in> set is" by simp
    from Cons.IH[OF rest this Cons.prems(3,4)] show ?thesis .
  qed
qed

lemma connect_rows_nodes:
  assumes "connect_rows up positions r is G = (e, G')"
  shows "set (nodes G) \<subseteq> set (nodes G') \<and>
         set (nodes G') \<subseteq> set (nodes G) \<union> set is \<union> set (keys positions)"
  using assms
proof (induction "is" arbitrary: G)
  case Nil
  then show ?case by auto
next
  case (Cons i "is")
  obtain x H where row: "connect_row up positions r i (keys positions) G = (x, H)"
    by (cases "connect_row up positions r i (keys positions) G")
  note n = connect_row_nodes[OF row]
  show ?case
  proof (cases x)
    case None
    with Cons.prems row have "connect_rows up positions r is H = (e, G')" by simp
    from Cons.IH[OF this] n show ?thesis by auto
  next
    case (Some y)
    with Cons.prems row have "G' = H" by simp
    with n show ?thesis by auto
  qed
qed

lemma has_edge_add_nodes_from_empty: "\<not> has_edge (add_nodes_from empty_graph ns) a b"
proof -
  have "neighbors (add_nodes_from empty_graph ns) a = neighbors empty_graph a"
    by (rule neighbors_add_nodes_from)
  then show ?thesis
    by (simp add: has_edge_def empty_graph_def neighbors_def)
qed

lemma has_edge_topology:
  assumes "topology up positions r = (None, G)"
  shows "has_edge G a b \<longleftrightarrow> a \<noteq> b \<and> in_range up positions r a b = Inr True"
proof -
  from assms have rows: "connect_rows up positions r (keys positions)
      (add_nodes_from empty_graph (keys positions)) = (None, G)"
    by (simp add: topology_def connect_nodes_def)
  from connect_rows_edges[OF rows, of a b]
  have "has_edge G a b \<longleftrightarrow>
     (\<exists>i \<in> set (keys positions). \<exists>j \<in> set (keys positions).
        i \<noteq> j \<and> in_range up positions r i j = Inr True \<and> (a = i \<and> b = j \<or> a = j \<and> b = i))"
    by (simp add: has_edge_add_nodes_from_empty)
  also have "\<dots> \<longleftrightarrow> a \<noteq> b \<and> in_range up positions r a b = Inr True"
  proof
    assume "\<exists>i \<in> set (keys positions). \<exists>j \<in> set (keys positions).
        i \<noteq> j \<and> in_range up positions r i j = Inr True \<and> (a = i \<and> b = j \<or> a = j \<and> b = i)"
    then obtain i j where "i \<noteq> j" "in_range up positions r i j = Inr True"
      "a = i \<and> b = j \<or> a = j \<and> b = i" by blast
    then show "a \<noteq> b \<and> in_range up positions r a b = Inr True"
      using in_range_commute[of up positions r a b] by auto
  next
    assume ab: "a \<noteq> b \<and> in_range up positions r a b = Inr True"
    then have "a \<in> set (keys positions)" "b \<in> set (keys positions)"
      using in_range_keys[of up positions r a b True] by simp_all
    with ab show "\<exists>i \<in> set (keys positions). \<exists>j \<in> set (keys positions).
        i \<noteq> j \<and> in_range up positions r i j = Inr True \<and> (a = i \<and> b = j \<or> a = j \<and> b = i)"
      by blast
  qed
  finally show ?thesis .
qed

lemma in_range_topology:
  assumes "topology up positions r = (None, G)"
    and "i \<in> set (keys positions)" and "j \<in> set (keys positions)" and "i \<noteq> j"
  shows "\<exists>c. in_range up positions r i j = Inr c"
proof -
  from assms(1) have rows: "connect_rows up positions r (keys positions)
      (add_nodes_from empty_graph (keys positions)) = (None, G)"
    by (simp add: topology_def connect_nodes_def)
  from connect_rows_defined[OF rows assms(2-4)] show ?thesis .
qed

lemma has_node_topology:
  assumes "topology up positions r = (e, G)"
  shows "has_node G m \<longleftrightarrow> m \<in> set (keys positions)"
proof -
  from assms have rows: "connect_rows up positions r (keys positions)
      (add_nodes_from empty_graph (keys positions)) = (e, G)"
    by (simp add: topology_def connect_nodes_def)
  have "has_node (add_nodes_from empty_graph (keys positions)) n \<longleftrightarrow> n \<in> set (keys positions)" for n
    by (simp add: has_node_add_nodes_from) (simp add: has_node_def nodes_def empty_graph_def)
  then have "set (nodes (add_nodes_from empty_graph (keys positions))) = set (keys positions)"
    by (auto simp: has_node_def)
  with connect_rows_nodes[OF rows] show ?thesis
    by (auto simp: has_node_def)
qed

subsection \<open>The computed distance\<close>

lemma euclidean_distance_exact:
  assumes "round_double (fst a - fst b) = fst a - fst b"
    and "round_double (snd a - snd b) = snd a - snd b"
    and "round_double ((fst a - fst b) * (fst a - fst b)) = (fst a - fst b) * (fst a - fst b)"
    and "round_double ((snd a - snd b) * (snd a - snd b)) = (snd a - snd b) * (snd a - snd b)"
    and "round_double ((fst a - fst b) * (fst a - fst b) + (snd a - snd b) * (snd a - snd b)) =
           (fst a - fst b) * (fst a - fst b) + (snd a - snd b) * (snd a - snd b)"
    and "round_double (sqrt ((fst a - fst b)\<^sup>2 + (snd a - snd b)\<^sup>2)) =
           sqrt ((fst a - fst b)\<^sup>2 + (snd a - snd b)\<^sup>2)"
    and "\<bar>fst a - fst b\<bar> < 2 ^ 1024" and "\<bar>snd a - snd b\<bar> < 2 ^ 1024"
    and "(fst a - fst b) * (fst a - fst b) + (snd a - snd b) * (snd a - snd b) < 2 ^ 1024"
  shows "euclidean_distance up a b = Inr (Finite (sqrt ((fst a - fst b)\<^sup>2 + (snd a - snd b)\<^sup>2)))"
proof -
  let ?dx = "fst a - fst b" and ?dy = "snd a - snd b"
  have x: "double_sub (fst a) (fst b) = Finite ?dx"
    unfolding double_sub_def using assms(1,7) by (rule to_double_small)
  have y: "double_sub (snd a) (snd b) = Finite ?dy"
    unfolding double_sub_def using assms(2,8) by (rule to_double_small)
  have sq: "0 \<le> ?dx * ?dx" "0 \<le> ?dy * ?dy" by simp_all
  with assms(9) have small: "?dx * ?dx < 2 ^ 1024" "?dy * ?dy < 2 ^ 1024"
    by linarith+
  have x2: "double_pow2 up (Finite ?dx) = Inr (Finite (?dx * ?dx))"
    using small(1) by (simp add: round_faithful_exact[OF assms(3)])
  have y2: "double_pow2 up (Finite ?dy) = Inr (Finite (?dy * ?dy))"
    using small(2) by (simp add: round_faithful_exact[OF assms(4)])
  have "\<bar>?dx * ?dx + ?dy * ?dy\<bar> < 2 ^ 1024"
    using sq assms(9) by linarith
  with assms(5) have s: "double_add (Finite (?dx * ?dx)) (Finite (?dy * ?dy)) =
      Finite (?dx * ?dx + ?dy * ?dy)"
    by (simp add: to_double_small)
  have r: "math_sqrt (Finite (?dx * ?dx + ?dy * ?dy)) =
      Inr (Finite (sqrt (?dx\<^sup>2 + ?dy\<^sup>2)))"
    using sq assms(6) by (simp add: power2_eq_square not_less)
  show ?thesis
    by (simp only: euclidean_distance_def x y x2 y2 s r sum.case)
qed

lemma in_range_formula:
  assumes "in_range up positions r i j = Inr c"
    and "map_of positions i = Some a" and "map_of positions j = Some b"
  shows "c \<longleftrightarrow>
     (let dx = round_double (fst a - fst b);
          dy = round_double (snd a - snd b);
          s = round_double (round_faithful up (dx\<^sup>2) + round_faithful up (dy\<^sup>2))
      in \<bar>dx\<bar> < 2 ^ 1024 \<and> \<bar>dy\<bar> < 2 ^ 1024 \<and> s < 2 ^ 1024 \<and> round_double (sqrt s) \<le> r)"
proof -
  from assms obtain d where d: "euclidean_distance up a b = Inr d" and c: "c = double_le d r"
    by (auto simp: in_range_def split: sum.splits)
  from d obtain sx sy where sx: "double_pow2 up (double_sub (fst a) (fst b)) = Inr sx"
    and sy: "double_pow2 up (double_sub (snd a) (snd b)) = Inr sy"
    and root: "math_sqrt (double_add sx sy) = Inr d"
    by (auto simp: euclidean_distance_def split: sum.splits)
  let ?dx = "round_double (fst a - fst b)" and ?dy = "round_double (snd a - snd b)"
  let ?s = "round_double (round_faithful up (?dx\<^sup>2) + round_faithful up (?dy\<^sup>2))"
  show ?thesis
  proof (cases "\<bar>?dx\<bar> < 2 ^ 1024 \<and> \<bar>?dy\<bar> < 2 ^ 1024")
    case False
    then have "sx = PInf \<or> sy = PInf"
      using sx sy by (auto simp: double_sub_def to_double_def split: if_splits)
    moreover have "sx \<noteq> NaN" "sy \<noteq> NaN" "sx \<noteq> NInf" "sy \<noteq> NInf"
      using sx sy by (auto simp: double_sub_def to_double_def split: if_splits)
    ultimately have "double_add sx sy = PInf"
      by (cases sx; cases sy) auto
    with root have "d = PInf" by simp
    with c False show ?thesis by (auto simp: Let_def)
  next
    case True
    then have fx: "double_sub (fst a) (fst b) = Finite ?dx"
      and fy: "double_sub (snd a) (snd b) = Finite ?dy"
      by (simp_all add: double_sub_def to_double_finite)
    from sx fx have sx': "sx = Finite (round_faithful up (?dx\<^sup>2))"
      by (auto simp: power2_eq_square split: if_splits)
    from sy fy have sy': "sy = Finite (round_faithful up (?dy\<^sup>2))"
      by (auto simp: power2_eq_square split: if_splits)
    have sum: "double_add sx sy =
        to_double (round_faithful up (?dx\<^sup>2) + round_faithful up (?dy\<^sup>2))"
      by (simp add: sx' sy')
    show ?thesis
    proof (cases "?s < 2 ^ 1024")
      case False
      then have "double_add sx sy = PInf"
        by (simp add: sum to_double_def)
      with root have "d = PInf" by simp
      with c False show ?thesis by (auto simp: Let_def)
    next
      case small: True
      have "\<not> ?s \<le> - (2 ^ 1024)"
      proof
        assume "?s \<le> - (2 ^ 1024)"
        then have "double_add sx sy = NInf"
          using small by (simp add: sum to_double_def)
        with root show False by simp
      qed
      with small have fin: "double_add sx sy = Finite ?s"
        by (simp add: sum to_double_def)
      with root have "d = Finite (round_double (sqrt ?s))"
        by (auto split: if_splits)
      with c True small show ?thesis by (simp add: Let_def)
    qed
  qed
qed

subsection \<open>Exceptions of the topology generator\<close>

lemma double_pow2_cases:
  "double_pow2 up (to_double x) = Inl OverflowError
   \<or> double_pow2 up (to_double x) = Inr PInf
   \<or> (\<exists>y. 0 \<le> y \<and> double_pow2 up (to_double x) = Inr (Finite y))"
proof -
  have "0 \<le> round_faithful up (round_double x * round_double x)"
    by (rule round_faithful_nonneg) simp
  then show ?thesis
    by (auto simp: to_double_def)
qed

lemma math_sqrt_sum_cases:
  assumes "sx = PInf \<or> (\<exists>y. 0 \<le> y \<and> sx = Finite y)"
    and "sy = PInf \<or> (\<exists>y. 0 \<le> y \<and> sy = Finite y)"
  shows "\<exists>d. math_sqrt (double_add sx sy) = Inr d"
proof -
  have "double_add sx sy = PInf \<or> (\<exists>y. 0 \<le> y \<and> double_add sx sy = Finite y)"
  proof (cases "sx = PInf \<or> sy = PInf")
    case True
    with assms show ?thesis by auto
  next
    case False
    with assms obtain x y where xy: "0 \<le> x" "sx = Finite x" "0 \<le> y" "sy = Finite y"
      by auto
    then have "0 \<le> round_double (x + y)"
      by (intro round_double_nonneg) simp
    with xy show ?thesis
      by (auto simp: to_double_def)
  qed
  then show ?thesis by auto
qed

lemma euclidean_distance_exn:
  assumes "euclidean_distance up a b = Inl e"
  shows "e = OverflowError"
proof -
  note x = double_pow2_cases[of up "fst a - fst b"]
  note y = double_pow2_cases[of up "snd a - snd b"]
  show ?thesis
  proof (cases "double_pow2 up (double_sub (fst a) (fst b))")
    case (Inl e')
    with x have "e' = OverflowError" by (auto simp: double_sub_def)
    with Inl assms show ?thesis by (simp add: euclidean_distance_def)
  next
    case sx: (Inr sx)
    show ?thesis
    proof (cases "double_pow2 up (double_sub (snd a) (snd b))")
      case (Inl e')
      with y have "e' = OverflowError" by (auto simp: double_sub_def)
      with Inl sx assms show ?thesis by (simp add: euclidean_distance_def)
    next
      case sy: (Inr sy)
      from sx x have 1: "sx = PInf \<or> (\<exists>y. 0 \<le> y \<and> sx = Finite y)"
        by (auto simp: double_sub_def)
      from sy y have 2: "sy = PInf \<or> (\<exists>y. 0 \<le> y \<and> sy = Finite y)"
        by (auto simp: double_sub_def)
      from math_sqrt_sum_cases[OF 1 2] sx sy assms show ?thesis
        by (auto simp: euclidean_distance_def)
    qed
  qed
qed

lemma map_of_keys:
  assumes "i \<in> set (keys positions)"
  shows "\<exists>a. map_of positions i = Some a \<and> (i, a) \<in> set positions"
proof -
  from assms have "map_of positions i \<noteq> None"
    by (simp add: keys_def map_of_eq_None_iff)
  then obtain a where "map_of positions i = Some a" by blast
  then show ?thesis by (blast dest: map_of_SomeD)
qed

lemma in_range_exn:
  assumes "in_range up positions r i j = Inl e"
    and "i \<in> set (keys positions)" and "j \<in> set (keys positions)"
  shows "e = OverflowError"
proof -
  from map_of_keys[OF assms(2)] obtain a where a: "map_of positions i = Some a" by blast
  from map_of_keys[OF assms(3)] obtain b where b: "map_of positions j = Some b" by blast
  from assms(1) a b have "euclidean_distance up a b = Inl e"
    by (simp add: in_range_def split: sum.splits)
  then show ?thesis by (rule euclidean_distance_exn)
qed

lemma connect_row_exn:
  assumes "connect_row up positions r i js G = (Some e, G')"
    and "i \<in> set (keys positions)" and "set js \<subseteq> set (keys positions)"
  shows "e = OverflowError"
  using assms
proof (induction js arbitrary: G)
  case Nil
  then show ?case by simp
next
  case (Cons j js)
  show ?case
  proof (cases "i = j")
    case True
    with Cons.prems have "connect_row up positions r i js G = (Some e, G')" by simp
    from Cons.IH[OF this Cons.prems(2)] Cons.prems(3) show ?thesis by simp
  next
    case False
    show ?thesis
    proof (cases "in_range up positions r i j")
      case (Inl e')
      with Cons.prems(1) False have "e' = e" by simp
      with Inl in_range_exn[of up positions r i j e] Cons.prems(2,3) show ?thesis by simp
    next
      case (Inr c)
      with Cons.prems(1) False
      have "connect_row up positions r i js (if c then add_edge G i j else G) = (Some e, G')"
        by simp
      from Cons.IH[OF this Cons.prems(2)] Cons.prems(3) show ?thesis by simp
    qed
  qed
qed

lemma connect_rows_exn:
  assumes "connect_rows up positions r is G = (Some e, G')"
    and "set is \<subseteq> set (keys positions)"
  shows "e = OverflowError"
  using assms
proof (induction "is" arbitrary: G)
  case Nil
  then show ?case by simp
next
  case (Cons i "is")
  obtain x H where row: "connect_row up positions r i (keys positions) G = (x, H)"
    by (cases "connect_row up positions r i (keys positions) G")
  show ?case
  proof (cases x)
    case None
    with Cons.prems(1) row have "connect_rows up positions r is H = (Some e, G')" by simp
    from Cons.IH[OF this] Cons.prems(2) show ?thesis by simp
  next
    case (Some y)
    with Cons.prems(1) row have "y = e" by simp
    with Some row connect_row_exn[of up positions r i "keys positions" G e H] Cons.prems(2)
    show ?thesis by simp
  qed
qed

lemma topology_exn:
  "fst (topology up positions r) = None \<or> fst (topology up positions r) = Some OverflowError"
proof (cases "fst (topology up positions r)")
  case None
  then show ?thesis by simp
next
  case (Some e)
  then have "connect_rows up positions r (keys positions)
      (add_nodes_from empty_graph (keys positions)) = (Some e, snd (topology up positions r))"
    by (simp add: topology_def connect_nodes_def prod_eq_iff)
  from connect_rows_exn[OF this] Some show ?thesis by simp
qed

lemma connect_row_total:
  assumes "\<forall>j \<in> set js. i \<noteq> j \<longrightarrow> (\<exists>c. in_range up positions r i j = Inr c)"
  shows "fst (connect_row up positions r i js G) = None"
  using assms
proof (induction js arbitrary: G)
  case Nil
  then show ?case by simp
next
  case (Cons j js)
  then have rest: "fst (connect_row up positions r i js H) = None" for H
    by simp
  show ?case
  proof (cases "i = j")
    case True
    with rest show ?thesis by simp
  next
    case False
    with Cons.prems obtain c where "in_range up positions r i j = Inr c" by auto
    with False rest show ?thesis by simp
  qed
qed

lemma connect_rows_total:
  assumes "\<forall>i \<in> set is. \<forall>j \<in> set (keys positions).
      i \<noteq> j \<longrightarrow> (\<exists>c. in_range up positions r i j = Inr c)"
  shows "fst (connect_rows up positions r is G) = None"
  using assms
proof (induction "is" arbitrary: G)
  case Nil
  then show ?case by simp
next
  case (Cons i "is")
  then have rest: "fst (connect_rows up positions r is H) = None" for H
    by simp
  from Cons.prems have "fst (connect_row up positions r i (keys positions) G) = None"
    by (intro connect_row_total) simp
  then obtain H where "connect_row up positions r i (keys positions) G = (None, H)"
    by (cases "connect_row up positions r i (keys positions) G") simp
  with rest[of H] show ?case by simp
qed

lemma topology_total:
  assumes "\<forall>i \<in> set (keys positions). \<forall>j \<in> set (keys positions).
      i \<noteq> j \<longrightarrow> (\<exists>c. in_range up positions r i j = Inr c)"
  shows "fst (topology up positions r) = None"
  unfolding topology_def connect_nodes_def using assms by (rule connect_rows_total)

lemma square_bounded:
  assumes "\<bar>x\<bar> \<le> 2 ^ 501"
  shows "0 \<le> round_faithful up (round_double x * round_double x)"
    and "round_faithful up (round_double x * round_double x) \<le> 2 ^ 1002"
    and "double_pow2 up (to_double x) =
           Inr (Finite (round_faithful up (round_double x * round_double x)))"
proof -
  let ?d = "round_double x"
  have d: "\<bar>?d\<bar> \<le> 2 ^ 501"
    using assms by (rule round_double_abs_le_pow2)
  have "(2::real) ^ 501 < 2 ^ 1024" by simp
  with d have "\<bar>?d\<bar> < 2 ^ 1024" by linarith
  then have f: "to_double x = Finite ?d" by (rule to_double_finite)
  have "\<bar>?d\<bar> * \<bar>?d\<bar> \<le> 2 ^ 501 * 2 ^ 501"
    using d by (intro mult_mono) simp_all
  also have "\<dots> = (2::real) ^ 1002"
    by (simp add: power_add[symmetric])
  finally have sq: "?d * ?d \<le> 2 ^ 1002"
    by (simp add: abs_mult_self_eq)
  show 0: "0 \<le> round_faithful up (?d * ?d)"
    by (rule round_faithful_nonneg) simp
  show 1: "round_faithful up (?d * ?d) \<le> 2 ^ 1002"
    using sq by (intro round_faithful_le_pow2) simp_all
  have "(2::real) ^ 1002 < 2 ^ 1024" by simp
  with 1 have "\<not> 2 ^ 1024 \<le> round_faithful up (?d * ?d)" by linarith
  then show "double_pow2 up (to_double x) = Inr (Finite (round_faithful up (?d * ?d)))"
    by (simp add: f)
qed

lemma euclidean_distance_bounded:
  assumes "\<bar>fst a\<bar> \<le> 2 ^ 500" and "\<bar>snd a\<bar> \<le> 2 ^ 500"
    and "\<bar>fst b\<bar> \<le> 2 ^ 500" and "\<bar>snd b\<bar> \<le> 2 ^ 500"
  shows "\<exists>d. euclidean_distance up a b = Inr d"
proof -
  have two: "(2::real) ^ 500 + 2 ^ 500 = 2 ^ 501" by simp
  have x: "\<bar>fst a - fst b\<bar> \<le> 2 ^ 501"
    using assms(1,3) two by linarith
  have y: "\<bar>snd a - snd b\<bar> \<le> 2 ^ 501"
    using assms(2,4) two by linarith
  let ?sx = "round_faithful up (round_double (fst a - fst b) * round_double (fst a - fst b))"
  let ?sy = "round_faithful up (round_double (snd a - snd b) * round_double (snd a - snd b))"
  note sx = square_bounded[OF x, of up] and sy = square_bounded[OF y, of up]
  have "(2::real) ^ 1002 + 2 ^ 1002 = 2 ^ 1003" by simp
  with sx(2) sy(2) have "?sx + ?sy \<le> 2 ^ 1003" by linarith
  moreover have nn: "0 \<le> ?sx + ?sy"
    using sx(1) sy(1) by linarith
  ultimately have "round_double (?sx + ?sy) \<le> 2 ^ 1003"
    by (intro round_double_le_pow2)
  moreover have "(2::real) ^ 1003 < 2 ^ 1024" by simp
  ultimately have lt: "round_double (?sx + ?sy) < 2 ^ 1024" by linarith
  have ge: "0 \<le> round_double (?sx + ?sy)"
    using nn by (rule round_double_nonneg)
  have "to_double (?sx + ?sy) = Finite (round_double (?sx + ?sy))"
    using lt ge by (intro to_double_finite) simp
  then have "math_sqrt (double_add (Finite ?sx) (Finite ?sy)) =
      Inr (Finite (round_double (sqrt (round_double (?sx + ?sy)))))"
    using ge by simp
  then show ?thesis
    by (simp add: euclidean_distance_def double_sub_def sx(3) sy(3))
qed

lemma topology_bounded:
  assumes "list_all (\<lambda>(k, p). \<bar>fst p\<bar> \<le> 2 ^ 500 \<and> \<bar>snd p\<bar> \<le> 2 ^ 500) positions"
  shows "fst (topology up positions r) = None"
proof (rule topology_total, intro ballI impI)
  fix i j
  assume "i \<in> set (keys positions)" and "j \<in> set (keys positions)"
  then obtain a b where a: "map_of positions i = Some a" "(i, a) \<in> set positions"
    and b: "map_of positions j = Some b" "(j, b) \<in> set positions"
    using map_of_keys by blast
  from assms a(2) b(2) have "\<bar>fst a\<bar> \<le> 2 ^ 500" "\<bar>snd a\<bar> \<le> 2 ^ 500"
    "\<bar>fst b\<bar> \<le> 2 ^ 500" "\<bar>snd b\<bar> \<le> 2 ^ 500"
    by (auto simp: list_all_iff)
  then obtain d where "euclidean_distance up a b = Inr d"
    using euclidean_distance_bounded by blast
  with a(1) b(1) show "\<exists>c. in_range up positions r i j = Inr c"
    by (simp add: in_range_def)
qed

section \<open>Correctness of the search\<close>

declare bfs.simps [simp del]

lemma route_single: "route G s s [s]"
  by (simp add: route_def)

lemma route_snoc: "route G s v p \<Longrightarrow> has_edge G v w \<Longrightarrow> route G s w (p @ [w])"
  by (auto simp: route_def successively_append_iff)

lemma route_unsnoc:
  assumes "route G s w q" and "2 \<le> length q"
  shows "\<exists>p v. q = p @ [w] \<and> route G s v p \<and> has_edge G v w"
proof -
  from assms(1) have ne: "q \<noteq> []" and lst: "last q = w" and hdq: "hd q = s"
    and succ: "successively (has_edge G) q"
    by (simp_all add: route_def)
  define p where "p = butlast q"
  have q: "q = p @ [w]"
    using append_butlast_last_id[OF ne] lst by (simp add: p_def)
  have pne: "p \<noteq> []"
    using assms(2) q by (cases p) auto
  from succ have "successively (has_edge G) p" "has_edge G (last p) w"
    using pne by (simp_all add: q successively_append_iff)
  moreover have "hd p = s"
    using hdq pne by (simp add: q)
  ultimately have "route G s (last p) p" "has_edge G (last p) w"
    using pne by (simp_all add: route_def)
  with q show ?thesis by blast
qed

lemma reach_0: "reach G s 0 = {}"
  by (auto simp: reach_def route_def)

lemma reach_1: "reach G s (Suc 0) = {s}"
proof -
  have "route G s v p \<Longrightarrow> length p \<le> Suc 0 \<Longrightarrow> v = s" for v p
    by (cases p) (auto simp: route_def)
  then show ?thesis
    using route_single[of G s] by (auto simp: reach_def intro: exI[of _ "[s]"])
qed

lemma reach_mono: "m \<le> n \<Longrightarrow> reach G s m \<subseteq> reach G s n"
  by (auto simp: reach_def intro: order_trans)

lemma reach_step:
  assumes "1 \<le> n"
  shows "reach G s (Suc n) =
     reach G s n \<union> {w. \<exists>v \<in> reach G s n - reach G s (n - 1). has_edge G v w}"
proof (intro equalityI subsetI)
  fix w
  assume "w \<in> reach G s (Suc n)"
  then obtain q where q: "route G s w q" "length q \<le> Suc n"
    by (auto simp: reach_def)
  show "w \<in> reach G s n \<union> {w. \<exists>v \<in> reach G s n - reach G s (n - 1). has_edge G v w}"
  proof (cases "length q \<le> n")
    case True
    then show ?thesis using q by (auto simp: reach_def)
  next
    case False
    then have len: "length q = Suc n" using q by simp
    with assms have "2 \<le> length q" by simp
    from route_unsnoc[OF q(1) this] obtain p v
      where pv: "q = p @ [w]" "route G s v p" "has_edge G v w" by blast
    have vn: "v \<in> reach G s n" using pv len by (auto simp: reach_def)
    show ?thesis
    proof (cases "v \<in> reach G s (n - 1)")
      case True
      then obtain p' where p': "route G s v p'" "length p' \<le> n - 1"
        by (auto simp: reach_def)
      then have "route G s w (p' @ [w])" "length (p' @ [w]) \<le> n"
        using route_snoc pv(3) assms by auto
      then show ?thesis unfolding reach_def by blast
    next
      case False
      with vn pv(3) show ?thesis by blast
    qed
  qed
next
  fix w
  assume "w \<in> reach G s n \<union> {w. \<exists>v \<in> reach G s n - reach G s (n - 1). has_edge G v w}"
  then show "w \<in> reach G s (Suc n)"
  proof
    assume "w \<in> reach G s n"
    then show ?thesis using reach_mono[of n "Suc n" G s] by auto
  next
    assume "w \<in> {w. \<exists>v \<in> reach G s n - reach G s (n - 1). has_edge G v w}"
    then obtain v p where "route G s v p" "length p \<le> n" "has_edge G v w"
      by (auto simp: reach_def)
    then have "route G s w (p @ [w])" "length (p @ [w]) \<le> Suc n"
      using route_snoc by auto
    then show ?thesis unfolding reach_def by blast
  qed
qed

lemma reach_closed:
  assumes "1 \<le> n"
    and "{w. \<exists>v \<in> reach G s n - reach G s (n - 1). has_edge G v w} \<subseteq> reach G s n"
  shows "reach G s (n + m) = reach G s n"
proof (induction m)
  case 0
  then show ?case by simp
next
  case (Suc m)
  have step: "reach G s (Suc (n + m)) =
      reach G s (n + m) \<union> {w. \<exists>v \<in> reach G s (n + m) - reach G s (n + m - 1). has_edge G v w}"
    using assms(1) by (intro reach_step) simp
  show ?case
  proof (cases m)
    case 0
    then show ?thesis using step assms(2) by auto
  next
    case (Suc k)
    then have "reach G s n \<subseteq> reach G s (n + m - 1)"
      by (intro reach_mono) simp
    then show ?thesis using step Suc.IH by auto
  qed
qed

lemma reach_closed_all:
  assumes "1 \<le> n"
    and "{w. \<exists>v \<in> reach G s n - reach G s (n - 1). has_edge G v w} \<subseteq> reach G s n"
    and "route G s v p"
  shows "v \<in> reach G s n"
proof -
  have "v \<in> reach G s (n + length p)"
    using assms(3) by (auto simp: reach_def)
  then show ?thesis using reach_closed[OF assms(1,2)] by simp
qed

lemma bfs_inv_initial: "bfs_inv G s t 1 [s] [[s]]"
  by (simp add: bfs_inv_def reach_0 reach_1 route_single)

lemma hd_candidates_edges:
  "hd ` set (candidates G frontier) = {w. \<exists>v \<in> hd ` set frontier. has_edge G v w}"
  by (auto simp: hd_candidates has_edge_def)

lemma candidates_route:
  assumes "\<forall>rp \<in> set frontier. route G s (hd rp) (rev rp) \<and> length rp = n"
    and "c \<in> set (candidates G frontier)"
  shows "route G s (hd c) (rev c) \<and> length c = Suc n"
proof -
  from assms(2) obtain rp w where c: "c = w # rp" "rp \<in> set frontier" "has_edge G (hd rp) w"
    by (auto simp: candidates_def has_edge_def)
  with assms(1) have "route G s (hd rp) (rev rp)" "length rp = n" by auto
  with c show ?thesis using route_snoc[of G s "hd rp" "rev rp" w] by simp
qed

lemma bfs_inv_step:
  assumes inv: "bfs_inv G s t n seen frontier"
    and nf: "find (\<lambda>p. hd p = t) frontier = None"
  shows "bfs_inv G s t (Suc n) (map hd (fresh seen (candidates G frontier)) @ seen)
           (fresh seen (candidates G frontier))"
proof -
  let ?next = "fresh seen (candidates G frontier)"
  from inv have n: "1 \<le> n"
    and paths: "\<forall>rp \<in> set frontier. route G s (hd rp) (rev rp) \<and> length rp = n"
    and seen: "set seen = reach G s n"
    and front: "hd ` set frontier = reach G s n - reach G s (n - 1)"
    and t: "t \<notin> reach G s (n - 1)"
    by (auto simp: bfs_inv_def)
  have step: "reach G s (Suc n) = reach G s n \<union> hd ` set (candidates G frontier)"
    using reach_step[OF n, of G s] by (simp add: hd_candidates_edges front)
  have 1: "\<forall>rp \<in> set ?next. route G s (hd rp) (rev rp) \<and> length rp = Suc n"
    using candidates_route[OF paths] set_fresh[of seen "candidates G frontier"] by blast
  have 2: "set (map hd ?next @ seen) = reach G s (Suc n)"
    using step seen by (auto simp: hd_fresh)
  have 3: "hd ` set ?next = reach G s (Suc n) - reach G s n"
    using step seen by (auto simp: hd_fresh)
  from nf have "t \<notin> hd ` set frontier"
    by (auto simp: find_None_iff)
  with t front have 4: "t \<notin> reach G s n" by auto
  from 1 2 3 4 show ?thesis by (simp add: bfs_inv_def)
qed

lemma bfs_correct:
  assumes "bfs_inv G s t n seen frontier"
  shows "case bfs G t seen frontier of
           Some p \<Rightarrow> route G s t p \<and> (\<forall>q. route G s t q \<longrightarrow> length p \<le> length q)
         | None \<Rightarrow> (\<forall>q. \<not> route G s t q)"
  using assms
proof (induction G t seen frontier arbitrary: n rule: bfs.induct)
  case (1 G t seen frontier)
  let ?next = "fresh seen (candidates G frontier)"
  from "1.prems" have n: "1 \<le> n"
    and paths: "\<forall>rp \<in> set frontier. route G s (hd rp) (rev rp) \<and> length rp = n"
    and seen: "set seen = reach G s n"
    and front: "hd ` set frontier = reach G s n - reach G s (n - 1)"
    and t: "t \<notin> reach G s (n - 1)"
    by (auto simp: bfs_inv_def)
  show ?case
  proof (cases "find (\<lambda>p. hd p = t) frontier")
    case (Some rp)
    then have rp: "rp \<in> set frontier" "hd rp = t"
      by (auto simp: find_Some_iff)
    with paths have r: "route G s t (rev rp)" "length rp = n" by auto
    have "length (rev rp) \<le> length q" if "route G s t q" for q
    proof (rule ccontr)
      assume "\<not> length (rev rp) \<le> length q"
      then have "length q \<le> n - 1" using r(2) by simp
      with that have "t \<in> reach G s (n - 1)" by (auto simp: reach_def)
      with t show False by simp
    qed
    with r(1) Some show ?thesis
      by (simp add: bfs.simps[of G t seen frontier])
  next
    case None
    note inv' = bfs_inv_step[OF "1.prems" None]
    show ?thesis
    proof (cases "?next = []")
      case True
      then have "hd ` set (candidates G frontier) \<subseteq> set seen"
        using hd_fresh[of seen "candidates G frontier"] by auto
      then have closed: "{w. \<exists>v \<in> reach G s n - reach G s (n - 1). has_edge G v w} \<subseteq> reach G s n"
        by (simp add: hd_candidates_edges front seen)
      from inv' have "t \<notin> reach G s n" by (simp add: bfs_inv_def)
      then have "\<not> route G s t q" for q
        using reach_closed_all[OF n closed] by blast
      with None True show ?thesis
        by (simp add: bfs.simps[of G t seen frontier])
    next
      case False
      from "1.IH"[OF None False inv'] None False show ?thesis
        by (simp add: bfs.simps[of G t seen frontier])
    qed
  qed
qed

lemma shortest_path_NodeNotFound:
  "(\<exists>m. shortest_path G s t = Inl (NodeNotFound m)) \<longleftrightarrow> \<not> has_node G s \<or> \<not> has_node G t"
  by (auto simp: shortest_path_def split: option.splits)

lemma shortest_path_Inr:
  assumes "shortest_path G s t = Inr p"
  shows "has_node G s \<and> has_node G t \<and> route G s t p \<and> (\<forall>q. route G s t q \<longrightarrow> length p \<le> length q)"
  using assms bfs_correct[OF bfs_inv_initial, of G s t]
  by (auto simp: shortest_path_def split: if_splits option.splits)

lemma shortest_path_NoPath:
  assumes "shortest_path G s t = Inl NetworkXNoPath"
  shows "has_node G s \<and> has_node G t \<and> (\<forall>q. \<not> route G s t q)"
  using assms bfs_correct[OF bfs_inv_initial, of G s t]
  by (auto simp: shortest_path_def split: if_splits option.splits)

lemma shortest_path_cases:
  "(\<exists>m. shortest_path G s t = Inl (NodeNotFound m)) \<or>
   shortest_path G s t = Inl NetworkXNoPath \<or> (\<exists>p. shortest_path G s t = Inr p)"
  by (auto simp: shortest_path_def split: option.splits)

section \<open>Properties of the routing loop\<close>

lemma mac_step_costs:
  "mac_step mac s r e = (case costs mac of Some (tx, rx) \<Rightarrow> charge e s r tx rx | None \<Rightarrow> (None, e))"
  by (simp add: mac_step_def costs_def)

lemma charge_ok:
  assumes "charge e s r tx rx = (None, e')"
  shows "e' = (\<lambda>n. map_option (\<lambda>v. v - (if n = s then tx else 0) - (if n = r then rx else 0)) (e n))"
proof -
  from assms obtain a where a: "e s = Some a"
    by (auto simp: charge_def deduct_def split: option.splits sum.splits)
  let ?e1 = "e(s \<mapsto> a - tx)"
  from assms a obtain b where b: "?e1 r = Some b" and e': "e' = ?e1(r \<mapsto> b - rx)"
    by (auto simp: charge_def deduct_def split: option.splits sum.splits)
  show ?thesis
  proof
    fix n
    show "e' n = map_option (\<lambda>v. v - (if n = s then tx else 0) - (if n = r then rx else 0)) (e n)"
      using a b e' by (cases "n = r"; cases "n = s") (auto simp: option.map_ident split: if_splits)
  qed
qed

lemma charge_succeeds:
  assumes "s \<in> dom e" and "r \<in> dom e"
  shows "\<exists>e'. charge e s r tx rx = (None, e')"
  using assms by (auto simp: charge_def deduct_def split: option.splits)

lemma charged_single: "charged e [v] tx rx = e"
  by (auto simp: charged_def senders_def receivers_def option.map_ident)

lemma charged_nil: "charged e [] tx rx = e"
  by (auto simp: charged_def senders_def receivers_def option.map_ident)

lemma charged_step:
  "charged (\<lambda>n. map_option (\<lambda>v. v - (if n = s then tx else 0) - (if n = r then rx else 0)) (e n))
     (r # rest) tx rx = charged e (s # r # rest) tx rx"
  by (rule ext) (simp add: charged_def senders_def receivers_def option.map_comp comp_def algebra_simps)

lemma transcript_step: "transcript (s # r # rest) = hop_text s r # transcript (r # rest)"
  by (simp add: transcript_def)

lemma route_loop_result:
  assumes "costs mac = Some (tx, rx)" and "route_loop mac p e logs = (Inr logs', e')"
  shows "logs' = logs @ transcript p \<and> e' = charged e p tx rx"
  using assms
proof (induction mac p e logs rule: route_loop.induct)
  case (1 mac s r rest e logs)
  from "1.prems"(2) obtain e1 where st: "mac_step mac s r e = (None, e1)"
    by (auto split: prod.splits option.splits)
  with "1.prems"(1) have ch: "charge e s r tx rx = (None, e1)"
    by (simp add: mac_step_costs)
  from "1.prems"(2) st have "route_loop mac (r # rest) e1 (logs @ [hop_text s r]) = (Inr logs', e')"
    by simp
  from "1.IH"[OF st[symmetric] refl "1.prems"(1) this]
  have "logs' = (logs @ [hop_text s r]) @ transcript (r # rest)" "e' = charged e1 (r # rest) tx rx"
    by simp_all
  then show ?case
    by (simp add: transcript_step charge_ok[OF ch] charged_step)
next
  case (2 mac e logs)
  then show ?case by (simp add: transcript_def charged_nil)
next
  case (3 mac v e logs)
  then show ?case by (simp add: transcript_def charged_single)
qed

lemma dom_charged: "dom (charged e p tx rx) = dom e"
  by (auto simp: charged_def dom_def)

lemma route_loop_succeeds:
  assumes "costs mac = Some (tx, rx)" and "set p \<subseteq> dom e"
  shows "\<exists>logs' e'. route_loop mac p e logs = (Inr logs', e')"
  using assms
proof (induction mac p e logs rule: route_loop.induct)
  case (1 mac s r rest e logs)
  from "1.prems"(2) have "s \<in> dom e" "r \<in> dom e" by auto
  from charge_succeeds[OF this] obtain e1 where ch: "charge e s r tx rx = (None, e1)"
    by blast
  with "1.prems"(1) have st: "mac_step mac s r e = (None, e1)"
    by (simp add: mac_step_costs)
  have "dom e1 = dom e"
    by (auto simp: charge_ok[OF ch] dom_def)
  with "1.prems"(2) have "set (r # rest) \<subseteq> dom e1" by simp
  from "1.IH"[OF st[symmetric] refl "1.prems"(1) this] st show ?case
    by simp
next
  case (2 mac e logs)
  then show ?case by simp
next
  case (3 mac v e logs)
  then show ?case by simp
qed

lemma route_loop_unknown:
  assumes "costs mac = None"
  shows "route_loop mac p e logs = (Inr (logs @ transcript p), e)"
  using assms
proof (induction mac p e logs rule: route_loop.induct)
  case (1 mac s r rest e logs)
  then have st: "mac_step mac s r e = (None, e)"
    by (simp add: mac_step_costs)
  from "1.IH"[OF st[symmetric] refl "1.prems"] st show ?case
    by (simp add: transcript_step)
next
  case (2 mac e logs)
  then show ?case by (simp add: transcript_def)
next
  case (3 mac v e logs)
  then show ?case by (simp add: transcript_def)
qed

lemma route_nodes:
  assumes "route G s t p" and "has_node G t"
  shows "set p \<subseteq> set (nodes G)"
proof -
  have "successively (has_edge G) p \<Longrightarrow> p \<noteq> [] \<Longrightarrow> has_node G (last p) \<Longrightarrow> set p \<subseteq> set (nodes G)"
  proof (induction p)
    case Nil
    then show ?case by simp
  next
    case (Cons u p)
    show ?case
    proof (cases p)
      case Nil
      with Cons.prems show ?thesis by (simp add: has_node_def)
    next
      case (Cons v p')
      with Cons.prems have "has_edge G u v" by simp
      then have "map_of G u \<noteq> None"
        by (cases "map_of G u") (simp_all add: has_edge_def neighbors_def)
      then have "u \<in> set (nodes G)"
        using has_node_map_of[of G u] by (simp add: has_node_def)
      moreover have "set p \<subseteq> set (nodes G)"
        using Cons.IH Cons.prems Cons by simp
      ultimately show ?thesis by simp
    qed
  qed
  with assms show ?thesis by (simp add: route_def)
qed

lemma sum_charged:
  assumes "finite (dom e)" and "set p \<subseteq> dom e" and "p \<noteq> []"
  shows "(\<Sum>n \<in> dom e. the (e n) - the (charged e p tx rx n)) =
           int (hops p) * tx + int (hops p) * rx"
proof -
  have sub: "set (senders p) \<subseteq> dom e" "set (receivers p) \<subseteq> dom e"
    using assms(2,3) by (auto simp: senders_def receivers_def dest: in_set_butlastD list.set_sel(2))
  have "(\<Sum>n \<in> dom e. the (e n) - the (charged e p tx rx n)) =
        (\<Sum>n \<in> dom e. tx * int (count_list (senders p) n) + rx * int (count_list (receivers p) n))"
    by (rule sum.cong) (auto simp: charged_def)
  also have "\<dots> = tx * int (\<Sum>n \<in> dom e. count_list (senders p) n) +
                    rx * int (\<Sum>n \<in> dom e. count_list (receivers p) n)"
    by (simp add: sum.distrib sum_distrib_left)
  also have "\<dots> = tx * int (length (senders p)) + rx * int (length (receivers p))"
    using sum_count_set[OF sub(1) assms(1)] sum_count_set[OF sub(2) assms(1)] by simp
  also have "\<dots> = int (hops p) * tx + int (hops p) * rx"
    by (simp add: senders_def receivers_def hops_def)
  finally show ?thesis .
qed

section \<open>Properties of a routing call\<close>

lemma shortest_path_exists:
  assumes "has_node G s" and "has_node G t" and "route G s t q"
  shows "\<exists>p. shortest_path G s t = Inr p"
  using shortest_path_cases[of G s t] shortest_path_NodeNotFound[of G s t]
    shortest_path_NoPath[of G s t] assms
  by blast

lemma shortest_path_shortest_route:
  assumes "shortest_path G s t = Inr p"
  shows "shortest_route G s t p"
proof -
  from shortest_path_Inr[OF assms] have r: "route G s t p"
    and m: "\<forall>q. route G s t q \<longrightarrow> length p \<le> length q" by simp_all
  from m have "\<forall>q. route G s t q \<longrightarrow> hops p \<le> hops q"
    by (auto simp: hops_def intro: diff_le_mono)
  with r show ?thesis by (simp add: shortest_route_def)
qed

lemma simulate_routing_path:
  assumes "shortest_path G s t = Inr p" and "route_loop mac p e [] = (Inr logs, e')"
  shows "simulate_routing G s t e mac =
           \<lparr>returned = Inr (Some p, logs), energy_after = e', graph_after = G\<rparr>"
  using assms by (simp add: simulate_routing_def)

lemma simulate_routing_returned_path:
  assumes "returned (simulate_routing G s t e mac) = Inr (Some p, logs)"
  shows "shortest_path G s t = Inr p \<and>
         route_loop mac p e [] = (Inr logs, energy_after (simulate_routing G s t e mac))"
  using assms
  by (auto simp: simulate_routing_def split: sum.splits exn.splits prod.splits)

lemma graph_after_same: "graph_after (simulate_routing G s t e mac) = G"
  by (auto simp: simulate_routing_def split: sum.splits exn.splits prod.splits)

lemma costs_cases:
  "costs mac = Some (tx, rx) \<longleftrightarrow>
     mac = ''CSMA'' \<and> tx = 2 \<and> rx = 1 \<or> mac = ''TDMA'' \<and> tx = 1 \<and> rx = 0"
  by (auto simp: costs_def TRANSMISSION_COST_def RECEPTION_COST_def)


lemma simulate_routing_known:
  assumes "has_node G s" and "has_node G t" and "route G s t q"
    and "set (nodes G) \<subseteq> dom e" and "costs mac = Some (tx, rx)"
  shows "\<exists>p. shortest_path G s t = Inr p \<and>
           simulate_routing G s t e mac =
             \<lparr>returned = Inr (Some p, transcript p), energy_after = charged e p tx rx,
              graph_after = G\<rparr>"
proof -
  from shortest_path_exists[OF assms(1-3)] obtain p where p: "shortest_path G s t = Inr p"
    by blast
  then have "route G s t p" using shortest_path_Inr by blast
  from route_nodes[OF this assms(2)] assms(4) have "set p \<subseteq> dom e" by blast
  from route_loop_succeeds[OF assms(5) this, of "[]"] obtain logs e'
    where l: "route_loop mac p e [] = (Inr logs, e')" by blast
  from route_loop_result[OF assms(5) l] have "logs = transcript p" "e' = charged e p tx rx"
    by simp_all
  with simulate_routing_path[OF p l] p show ?thesis by blast
qed

lemma simulate_routing_unknown:
  assumes "has_node G s" and "has_node G t" and "route G s t q" and "costs mac = None"
  shows "\<exists>p. shortest_path G s t = Inr p \<and>
           simulate_routing G s t e mac =
             \<lparr>returned = Inr (Some p, transcript p), energy_after = e, graph_after = G\<rparr>"
proof -
  from shortest_path_exists[OF assms(1-3)] obtain p where p: "shortest_path G s t = Inr p"
    by blast
  from simulate_routing_path[OF p route_loop_unknown[OF assms(4), of p e "[]"]] p
  show ?thesis by auto
qed

lemma shortest_path_line: "shortest_path line_graph 0 2 = Inr [0, 1, 2]"
  by code_simp

lemma dom_initial_energy: "dom (initial_energy n) = {0..<n}"
  by (auto simp: initial_energy_def dom_def)

lemma distance_three_nodes:
  "euclidean_distance up (0, 0) (1, 0) = Inr (Finite 1)"
  "euclidean_distance up (1, 0) (2, 0) = Inr (Finite 1)"
  "euclidean_distance up (0, 0) (2, 0) = Inr (Finite 2)"
proof -
  show "euclidean_distance up (0, 0) (1, 0) = Inr (Finite 1)"
    using euclidean_distance_exact[of "(0, 0)" "(1, 0)"]
    by (simp add: round_double_0 round_double_1 round_double_minus)
  show "euclidean_distance up (1, 0) (2, 0) = Inr (Finite 1)"
    using euclidean_distance_exact[of "(1, 0)" "(2, 0)"]
    by (simp add: round_double_0 round_double_1 round_double_minus)
  show "euclidean_distance up (0, 0) (2, 0) = Inr (Finite 2)"
    using euclidean_distance_exact[of "(0, 0)" "(2, 0)"]
    by (simp add: round_double_0 round_double_2 round_double_4 round_double_minus)
qed



lemma distance_near_pair: "euclidean_distance up (0, 0) (1, 1 / 2 ^ 30) = Inr (Finite 1)"
proof -
  have x: "double_sub 0 1 = Finite (- 1)"
    unfolding double_sub_def
    by (rule to_double_small) (simp_all add: round_double_minus round_double_1)
  have "round_faithful up 1 = 1"
    using round_double_1 by (rule round_faithful_exact)
  then have x2: "double_pow2 up (Finite (- 1)) = Inr (Finite 1)"
    by simp
  have r: "round_double (1 / 2 ^ 30) = 1 / 2 ^ 30"
    by (rule round_double_inverse_pow2) simp
  have y: "double_sub 0 (1 / 2 ^ 30) = Finite (- (1 / 2 ^ 30))"
    unfolding double_sub_def
  proof (rule to_double_small)
    show "round_double (0 - 1 / 2 ^ 30) = - (1 / 2 ^ 30)"
      using r by (simp only: diff_0 round_double_minus)
    show "\<bar>- (1 / 2 ^ 30) :: real\<bar> < 2 ^ 1024" by simp
  qed
  have sq: "- (1 / 2 ^ 30) * - (1 / 2 ^ 30) = (1::real) / 2 ^ 60"
    by simp
  have "round_double (1 / 2 ^ 60) = 1 / 2 ^ 60"
    by (rule round_double_inverse_pow2) simp
  then have r2: "round_faithful up (1 / 2 ^ 60) = 1 / 2 ^ 60"
    by (rule round_faithful_exact)
  have "\<not> (2::real) ^ 1024 \<le> 1 / 2 ^ 60" by simp
  then have y2: "double_pow2 up (Finite (- (1 / 2 ^ 30))) = Inr (Finite (1 / 2 ^ 60))"
    by (simp only: double_pow2.simps sq r2 if_False)
  have s: "double_add (Finite 1) (Finite (1 / 2 ^ 60)) = Finite 1"
    unfolding double_add.simps
    by (rule to_double_small) (simp_all only: round_double_near_1, simp)
  have t: "math_sqrt (Finite 1) = Inr (Finite 1)"
    by (simp add: round_double_1)
  show ?thesis
    by (simp only: euclidean_distance_def fst_conv snd_conv x x2 y y2 s t sum.case)
qed

lemma topology_near_pair: "topology up near_pair 1 = (None, [(0, [1]), (1, [0])])"
proof -
  have k: "keys near_pair = [0, 1]"
    by (simp add: keys_def near_pair_def)
  have m: "map_of near_pair 0 = Some (0, 0)" "map_of near_pair 1 = Some (1, 1 / 2 ^ 30)"
    by (simp_all add: near_pair_def)
  have a: "in_range up near_pair 1 0 1 = Inr True"
    by (simp only: in_range_def m option.case distance_near_pair sum.case double_le.simps)
      simp
  then have b: "in_range up near_pair 1 1 0 = Inr True"
    by (simp only: in_range_commute[of up near_pair 1 1 0])
  show ?thesis
    unfolding topology_def connect_nodes_def k
    by (simp add: a b add_nodes_from_def add_node_def has_node_def nodes_def
        empty_graph_def add_edge_def add_neighbor_def k)
qed

lemma topology_far_pair: "topology up far_pair (3 / 2) = (None, [(0, []), (1, [])])"
proof -
  have k: "keys far_pair = [0, 1]"
    by (simp add: keys_def far_pair_def)
  have a: "in_range up far_pair (3 / 2) 0 1 = Inr False"
    by (simp add: in_range_def far_pair_def distance_three_nodes)
  then have b: "in_range up far_pair (3 / 2) 1 0 = Inr False"
    by (simp only: in_range_commute[of up far_pair "3 / 2" 1 0])
  show ?thesis
    unfolding topology_def connect_nodes_def k
    by (simp add: a b add_nodes_from_def add_node_def has_node_def nodes_def
        empty_graph_def k)
qed

lemma distance_huge_pair: "euclidean_distance up (0, 0) (2 ^ 600, 0) = Inl OverflowError"
proof -
  have x: "double_sub 0 (2 ^ 600) = Finite (- (2 ^ 600))"
    unfolding double_sub_def
  proof (rule to_double_small)
    show "round_double (0 - 2 ^ 600) = - (2 ^ 600)"
      by (simp only: diff_0 round_double_minus round_double_pow2)
    show "\<bar>- (2 ^ 600) :: real\<bar> < 2 ^ 1024" by simp
  qed
  have sq: "- (2 ^ 600) * - (2 ^ 600) = (2::real) ^ 1200"
    by (simp add: power_add[symmetric])
  have "round_faithful up (2 ^ 1200) = 2 ^ 1200"
    using round_double_pow2 by (rule round_faithful_exact)
  moreover have "(2::real) ^ 1024 \<le> 2 ^ 1200" by simp
  ultimately have x2: "double_pow2 up (Finite (- (2 ^ 600))) = Inl OverflowError"
    by (simp only: double_pow2.simps sq if_True)
  show ?thesis
    by (simp only: euclidean_distance_def fst_conv snd_conv x x2 sum.case)
qed

lemma topology_huge_pair:
  "topology up huge_pair tx_range = (Some OverflowError, [(0, []), (1, [])])"
proof -
  have k: "keys huge_pair = [0, 1]"
    by (simp add: keys_def huge_pair_def)
  have m: "map_of huge_pair 0 = Some (0, 0)" "map_of huge_pair 1 = Some (2 ^ 600, 0)"
    by (simp_all add: huge_pair_def)
  have a: "in_range up huge_pair tx_range 0 1 = Inl OverflowError"
    by (simp only: in_range_def m option.case distance_huge_pair sum.case)
  show ?thesis
    unfolding topology_def connect_nodes_def k
    by (simp add: a add_nodes_from_def add_node_def has_node_def nodes_def
        empty_graph_def k)
qed

lemma round_double_skew: "round_double (3 + 1 / 2 ^ 51) = 3 + 1 / 2 ^ 51"
proof -
  let ?x = "3 + 1 / 2 ^ 51 :: real"
  have b: "2 ^ 1 \<le> \<bar>?x\<bar>" "\<bar>?x\<bar> < 2 ^ Suc 1" "(1::nat) \<le> 52"
    by simp_all
  have "?x * 2 ^ (52 - 1) = of_int (3 * 2 ^ 51 + 1)"
    by simp
  then have "round_half_even (?x * 2 ^ (52 - 1)) = 3 * 2 ^ 51 + 1"
    by (simp only: round_half_even_of_int)
  then have "round_double ?x = of_int (3 * 2 ^ 51 + 1) / 2 ^ (52 - 1)"
    by (simp only: rounding_nat(1)[OF b])
  then show ?thesis by simp
qed

lemma square_skew:
  "round_down ((3 + 1 / 2 ^ 51) * (3 + 1 / 2 ^ 51)) = 9 + 1 / 2 ^ 49"
  "round_up ((3 + 1 / 2 ^ 51) * (3 + 1 / 2 ^ 51)) = 9 + 1 / 2 ^ 48"
proof -
  let ?t = "(3 + 1 / 2 ^ 51) * (3 + 1 / 2 ^ 51) :: real"
  have b: "2 ^ 3 \<le> \<bar>?t\<bar>" "\<bar>?t\<bar> < 2 ^ Suc 3" "(3::nat) \<le> 52"
    by simp_all
  have v: "?t * 2 ^ (52 - 3) = of_int (9 * 2 ^ 49 + 1) + (1 / 2 + 1 / 2 ^ 53)"
    by simp
  have "\<lfloor>?t * 2 ^ (52 - 3)\<rfloor> = 9 * 2 ^ 49 + 1"
    unfolding v by (rule floor_unique) simp_all
  then have "round_down ?t = of_int (9 * 2 ^ 49 + 1) / 2 ^ (52 - 3)"
    by (simp only: rounding_nat(2)[OF b])
  then show "round_down ?t = 9 + 1 / 2 ^ 49" by simp
  have "\<lceil>?t * 2 ^ (52 - 3)\<rceil> = 9 * 2 ^ 49 + 2"
    unfolding v by (rule ceiling_unique) simp_all
  then have "round_up ?t = of_int (9 * 2 ^ 49 + 2) / 2 ^ (52 - 3)"
    by (simp only: rounding_nat(3)[OF b])
  then show "round_up ?t = 9 + 1 / 2 ^ 48" by simp
qed

lemma sum_skew:
  "round_double (9 + 1 / 2 ^ 49 + 16) = 25"
  "round_double (9 + 1 / 2 ^ 48 + 16) = 25 + 1 / 2 ^ 48"
proof -
  let ?x = "9 + 1 / 2 ^ 49 + 16 :: real" and ?y = "9 + 1 / 2 ^ 48 + 16 :: real"
  have b: "2 ^ 4 \<le> \<bar>?x\<bar>" "\<bar>?x\<bar> < 2 ^ Suc 4" "(4::nat) \<le> 52"
    by simp_all
  have "?x * 2 ^ (52 - 4) = of_int (25 * 2 ^ 48) + 1 / 2"
    by simp
  moreover have "round_half_even (of_int (25 * 2 ^ 48) + 1 / 2) = 25 * 2 ^ 48"
    by (rule round_half_even_tie) simp
  ultimately have "round_half_even (?x * 2 ^ (52 - 4)) = 25 * 2 ^ 48"
    by (simp only:)
  then have "round_double ?x = of_int (25 * 2 ^ 48) / 2 ^ (52 - 4)"
    by (simp only: rounding_nat(1)[OF b])
  then show "round_double ?x = 25" by simp
  have c: "2 ^ 4 \<le> \<bar>?y\<bar>" "\<bar>?y\<bar> < 2 ^ Suc 4" "(4::nat) \<le> 52"
    by simp_all
  have "?y * 2 ^ (52 - 4) = of_int (25 * 2 ^ 48 + 1)"
    by simp
  then have "round_half_even (?y * 2 ^ (52 - 4)) = 25 * 2 ^ 48 + 1"
    by (simp only: round_half_even_of_int)
  then have "round_double ?y = of_int (25 * 2 ^ 48 + 1) / 2 ^ (52 - 4)"
    by (simp only: rounding_nat(1)[OF c])
  then show "round_double ?y = 25 + 1 / 2 ^ 48" by simp
qed

lemma round_double_5: "round_double 5 = 5"
proof -
  have b: "2 ^ 2 \<le> \<bar>5 :: real\<bar>" "\<bar>5 :: real\<bar> < 2 ^ Suc 2" "(2::nat) \<le> 52"
    by simp_all
  have "(5::real) * 2 ^ (52 - 2) = of_int (5 * 2 ^ 50)"
    by simp
  then have "round_half_even ((5::real) * 2 ^ (52 - 2)) = 5 * 2 ^ 50"
    by (simp only: round_half_even_of_int)
  then have "round_double 5 = of_int (5 * 2 ^ 50) / 2 ^ (52 - 2)"
    by (simp only: rounding_nat(1)[OF b])
  then show ?thesis by simp
qed

lemma root_skew:
  "round_double (sqrt 25) = 5"
  "round_double (sqrt (25 + 1 / 2 ^ 48)) = 5"
proof -
  have "sqrt 25 = sqrt (5\<^sup>2)" by simp
  also have "\<dots> = 5" by simp
  finally show "round_double (sqrt 25) = 5"
    by (simp only: round_double_5)
  let ?r = "sqrt (25 + 1 / 2 ^ 48)"
  have lo: "5 \<le> ?r"
    by (rule real_le_rsqrt) simp
  have hi: "?r < 5 + 1 / 2 ^ 51"
    by (rule real_less_lsqrt) (simp_all add: power2_eq_square)
  have b: "2 ^ 2 \<le> \<bar>?r\<bar>" "\<bar>?r\<bar> < 2 ^ Suc 2" "(2::nat) \<le> 52"
    using lo hi by simp_all
  have "?r * 2 ^ (52 - 2) = of_int (5 * 2 ^ 50) + (?r - 5) * 2 ^ 50"
    by (simp add: algebra_simps)
  moreover have "round_half_even (of_int (5 * 2 ^ 50) + (?r - 5) * 2 ^ 50) = 5 * 2 ^ 50"
  proof (rule round_half_even_near)
    show "0 \<le> (?r - 5) * 2 ^ 50" using lo by simp
    have "(?r - 5) * 2 ^ 50 < 1 / 2 ^ 51 * 2 ^ 50"
      using hi by (intro mult_strict_right_mono) simp_all
    then show "(?r - 5) * 2 ^ 50 < 1 / 2" by simp
  qed
  ultimately have "round_half_even (?r * 2 ^ (52 - 2)) = 5 * 2 ^ 50"
    by (simp only:)
  then have "round_double ?r = of_int (5 * 2 ^ 50) / 2 ^ (52 - 2)"
    by (simp only: rounding_nat(1)[OF b])
  then show "round_double ?r = 5" by simp
qed

lemma distance_skew_pair: "euclidean_distance up (0, 0) (3 + 1 / 2 ^ 51, 4) = Inr (Finite 5)"
proof -
  let ?a = "3 + 1 / 2 ^ 51 :: real"
  have x: "double_sub 0 ?a = Finite (- ?a)"
    unfolding double_sub_def
  proof (rule to_double_small)
    show "round_double (0 - ?a) = - ?a"
      by (simp only: diff_0 round_double_minus round_double_skew)
    show "\<bar>- ?a\<bar> < 2 ^ 1024" by simp
  qed
  have sq: "- ?a * - ?a = ?a * ?a" by simp
  have y: "double_sub 0 4 = Finite (- 4)"
    unfolding double_sub_def
    by (rule to_double_small) (simp_all add: round_double_minus round_double_4)
  have "round_double 16 = 16"
    using round_double_pow2[of 4] by simp
  then have "round_faithful up 16 = 16"
    by (rule round_faithful_exact)
  then have y2: "double_pow2 up (Finite (- 4)) = Inr (Finite 16)"
    by simp
  have five: "math_sqrt (Finite 25) = Inr (Finite 5)"
    "math_sqrt (Finite (25 + 1 / 2 ^ 48)) = Inr (Finite 5)"
    by (simp_all only: math_sqrt.simps root_skew) simp_all
  show ?thesis
  proof (cases "up (?a * ?a)")
    case True
    then have "round_faithful up (?a * ?a) = 9 + 1 / 2 ^ 48"
      by (simp only: round_faithful_def square_skew if_True)
    moreover have "\<not> (2::real) ^ 1024 \<le> 9 + 1 / 2 ^ 48" by simp
    ultimately have x2: "double_pow2 up (Finite (- ?a)) = Inr (Finite (9 + 1 / 2 ^ 48))"
      by (simp only: double_pow2.simps sq if_False)
    have s: "double_add (Finite (9 + 1 / 2 ^ 48)) (Finite 16) = Finite (25 + 1 / 2 ^ 48)"
      unfolding double_add.simps
      by (rule to_double_small) (simp_all only: sum_skew, simp)
    show ?thesis
      by (simp only: euclidean_distance_def fst_conv snd_conv x x2 y y2 s five sum.case)
  next
    case False
    then have "round_faithful up (?a * ?a) = 9 + 1 / 2 ^ 49"
      by (simp only: round_faithful_def square_skew if_False)
    moreover have "\<not> (2::real) ^ 1024 \<le> 9 + 1 / 2 ^ 49" by simp
    ultimately have x2: "double_pow2 up (Finite (- ?a)) = Inr (Finite (9 + 1 / 2 ^ 49))"
      by (simp only: double_pow2.simps sq if_False)
    have s: "double_add (Finite (9 + 1 / 2 ^ 49)) (Finite 16) = Finite 25"
      unfolding double_add.simps
      by (rule to_double_small) (simp_all only: sum_skew, simp)
    show ?thesis
      by (simp only: euclidean_distance_def fst_conv snd_conv x x2 y y2 s five sum.case)
  qed
qed

lemma topology_skew_pair: "topology up skew_pair 5 = (None, [(0, [1]), (1, [0])])"
proof -
  have k: "keys skew_pair = [0, 1]"
    by (simp add: keys_def skew_pair_def)
  have m: "map_of skew_pair 0 = Some (0, 0)" "map_of skew_pair 1 = Some (3 + 1 / 2 ^ 51, 4)"
    by (simp_all add: skew_pair_def)
  have a: "in_range up skew_pair 5 0 1 = Inr True"
    by (simp only: in_range_def m option.case distance_skew_pair sum.case double_le.simps)
      simp
  then have b: "in_range up skew_pair 5 1 0 = Inr True"
    by (simp only: in_range_commute[of up skew_pair 5 1 0])
  show ?thesis
    unfolding topology_def connect_nodes_def k
    by (simp add: a b add_nodes_from_def add_node_def has_node_def nodes_def
        empty_graph_def add_edge_def add_neighbor_def k)
qed

lemma skew_pair_apart: "5 < sqrt ((0 - (3 + 1 / 2 ^ 51))\<^sup>2 + (0 - 4)\<^sup>2)"
  by (rule real_less_rsqrt) (simp add: power2_eq_square)

lemma route_line: "route line_graph 0 2 [0, 1, 2]"
  by (simp add: route_def line_graph_def has_edge_def neighbors_def)

lemma nodes_line: "has_node line_graph 0" "has_node line_graph 2"
  by (simp_all add: has_node_def nodes_def line_graph_def)

lemma covered_line: "set (nodes line_graph) \<subseteq> dom (initial_energy 3)"
  by (simp add: dom_initial_energy nodes_def line_graph_def)

lemma route_loop_line_csma:
  "route_loop ''CSMA'' [0, 1, 2] (initial_energy 3) [] =
     (Inr (transcript [0, 1, 2]), charged (initial_energy 3) [0, 1, 2] 2 1)"
proof -
  have c: "costs ''CSMA'' = Some (2, 1)" by (simp add: costs_cases)
  have "set [0, 1, 2] \<subseteq> dom (initial_energy 3)" by (simp add: dom_initial_energy)
  from route_loop_succeeds[OF c this, of "[]"] obtain logs e'
    where l: "route_loop ''CSMA'' [0, 1, 2] (initial_energy 3) [] = (Inr logs, e')" by blast
  from route_loop_result[OF c l] l show ?thesis by simp
qed


lemma charged_off_path: "n \<notin> set p \<Longrightarrow> charged e p tx rx n = e n"
proof -
  assume "n \<notin> set p"
  then have "n \<notin> set (senders p)" "n \<notin> set (receivers p)"
    by (cases p; auto simp: senders_def receivers_def dest: in_set_butlastD)+
  then show ?thesis
    by (simp add: charged_def option.map_ident)
qed

lemma charged_le:
  assumes "0 \<le> tx" and "0 \<le> rx" and "e n = Some a" and "charged e p tx rx n = Some b"
  shows "b \<le> a"
proof -
  from assms(3,4) have
    "b = a - tx * int (count_list (senders p) n) - rx * int (count_list (receivers p) n)"
    by (simp add: charged_def)
  moreover have "0 \<le> tx * int (count_list (senders p) n)" "0 \<le> rx * int (count_list (receivers p) n)"
    using assms(1,2) by simp_all
  ultimately show ?thesis by linarith
qed

lemma costs_nonneg: "costs mac = Some (tx, rx) \<Longrightarrow> 1 \<le> tx \<and> 0 \<le> rx"
  by (auto simp: costs_cases)

lemma route_hops_shortest:
  assumes "shortest_route G s t p" and "shortest_route G s t q"
  shows "hops p = hops q"
  using assms by (auto simp: shortest_route_def intro: le_antisym)

lemma shortest_route_line: "shortest_route line_graph 0 2 [0, 1, 2]"
  by (rule shortest_path_shortest_route[OF shortest_path_line])

lemma shortest_path_spur: "shortest_path spur_graph 0 2 = Inr [0, 1, 2]"
  by code_simp

lemma returned_spur:
  "returned (simulate_routing spur_graph 0 2 (initial_energy 4) ''CSMA'') =
     Inr (Some [0, 1, 2], transcript [0, 1, 2])"
proof -
  have c: "costs ''CSMA'' = Some (2, 1)" by (simp add: costs_cases)
  have "set [0, 1, 2] \<subseteq> dom (initial_energy 4)" by (simp add: dom_initial_energy)
  from route_loop_succeeds[OF c this, of "[]"] obtain logs e'
    where l: "route_loop ''CSMA'' [0, 1, 2] (initial_energy 4) [] = (Inr logs, e')" by blast
  from route_loop_result[OF c l] have "logs = transcript [0, 1, 2]" by simp
  with simulate_routing_path[OF shortest_path_spur l] show ?thesis by simp
qed




lemma no_neighbors:
  assumes "\<forall>j. \<not> has_edge G i j"
  shows "neighbors G i = []"
proof (cases "neighbors G i")
  case Nil
  then show ?thesis .
next
  case (Cons j js)
  then have "has_edge G i j" by (simp add: has_edge_def)
  with assms show ?thesis by blast
qed

lemma charged_twice:
  "the (charged e p tx rx n) - the (charged (charged e p tx rx) p tx rx n) =
   the (e n) - the (charged e p tx rx n)"
  by (cases "e n") (simp_all add: charged_def)

lemma source_is_sender:
  assumes "route G s t p" and "s \<noteq> t"
  shows "s \<in> set (senders p)"
proof -
  from assms obtain v rest where "p = s # v # rest"
    by (cases p; cases "tl p") (auto simp: route_def)
  then show ?thesis by (simp add: senders_def)
qed

lemma charged_changes:
  assumes "1 \<le> tx" and "0 \<le> rx" and "s \<in> set (senders p)" and "s \<in> dom e"
  shows "charged e p tx rx \<noteq> e"
proof
  assume eq: "charged e p tx rx = e"
  from assms(4) obtain a where a: "e s = Some a" by blast
  from assms(3) have "1 \<le> count_list (senders p) s"
    using count_list_0_iff[of "senders p" s] by linarith
  then have "1 \<le> int (count_list (senders p) s)" by simp
  with assms(1) have "1 \<le> tx * int (count_list (senders p) s)"
    using mult_mono[of 1 tx 1 "int (count_list (senders p) s)"] by simp
  moreover have "0 \<le> rx * int (count_list (receivers p) s)"
    using assms(2) by simp
  moreover have
    "a - tx * int (count_list (senders p) s) - rx * int (count_list (receivers p) s) = a"
  proof -
    have "charged e p tx rx s = e s" by (simp only: eq)
    then show ?thesis by (simp add: charged_def a)
  qed
  ultimately show False by linarith
qed

lemma two_islands_unreachable: "unreachable two_islands 0 1"
proof -
  have "shortest_path two_islands 0 1 = Inl NetworkXNoPath"
    by (simp add: shortest_path_def two_islands_def has_node_def nodes_def
        bfs.simps[of _ _ "[0]" "[[0]]"] candidates_def neighbors_def)
  from shortest_path_NoPath[OF this] show ?thesis by (simp add: unreachable_def)
qed

lemma single_node_path: "has_node G s \<Longrightarrow> shortest_path G s s = Inr [s]"
  by (simp add: shortest_path_def bfs.simps[of G s "[s]" "[[s]]"])

section \<open>The claims\<close>

subsection \<open>C1: what one call deducts\<close>

text \<open>
  Claim C1. Let source and sink be nodes of the graph whose shortest route has \<open>L\<close>
  hops (the spec's "known shortest path of length L"), let the energy map be finite
  and have an entry for every node of the graph, and let the policy be CSMA with the
  cost pair (2, 1) or TDMA with the cost pair (1, 0). Then one call returns a route
  of \<open>L\<close> hops, the energy deducted over all nodes totals \<open>L * tx_cost + L * rx_cost\<close>,
  and the energy map after the call is \<open>charged energy p tx_cost rx_cost\<close>: every node
  has lost \<open>tx_cost\<close> for each hop it sends and \<open>rx_cost\<close> for each hop it receives.
  The cost pairs are the ones of the code: (2, 1) for CSMA, and for TDMA the halves
  \<open>2 div 2\<close> and \<open>1 div 2\<close>, rounded down.
\<close>

theorem routing_deducts_hop_costs:
  assumes "has_node G source" and "has_node G sink"
    and "shortest_route G source sink q" and "hops q = L"
    and "finite (dom energy)" and "set (nodes G) \<subseteq> dom energy"
    and "mac_protocol = ''CSMA'' \<and> tx_cost = 2 \<and> rx_cost = 1 \<or>
         mac_protocol = ''TDMA'' \<and> tx_cost = 1 \<and> rx_cost = 0"
  shows "\<exists>p logs energy'.
           simulate_routing G source sink energy mac_protocol =
             \<lparr>returned = Inr (Some p, logs), energy_after = energy', graph_after = G\<rparr>
         \<and> route G source sink p \<and> hops p = L
         \<and> (\<Sum>n \<in> dom energy. the (energy n) - the (energy' n)) = int L * tx_cost + int L * rx_cost
         \<and> energy' = charged energy p tx_cost rx_cost
         \<and> costs ''CSMA'' = Some (2, 1)
         \<and> costs ''TDMA'' = Some (2 div 2, 1 div 2)"
proof -
  from assms(7) have c: "costs mac_protocol = Some (tx_cost, rx_cost)"
    by (simp add: costs_cases)
  from assms(3) have rq: "route G source sink q" by (simp add: shortest_route_def)
  from simulate_routing_known[OF assms(1,2) rq assms(6) c] obtain p
    where p: "shortest_path G source sink = Inr p"
      and r: "simulate_routing G source sink energy mac_protocol =
                \<lparr>returned = Inr (Some p, transcript p),
                 energy_after = charged energy p tx_cost rx_cost, graph_after = G\<rparr>"
    by blast
  from shortest_path_shortest_route[OF p] have sp: "shortest_route G source sink p" .
  then have rp: "route G source sink p" by (simp add: shortest_route_def)
  from route_hops_shortest[OF sp assms(3)] assms(4) have h: "hops p = L" by simp
  from route_nodes[OF rp assms(2)] assms(6) have sub: "set p \<subseteq> dom energy" by blast
  from rp have "p \<noteq> []" by (simp add: route_def)
  from sum_charged[OF assms(5) sub this, of tx_cost rx_cost] h
  have "(\<Sum>n \<in> dom energy. the (energy n) - the (charged energy p tx_cost rx_cost n)) =
          int L * tx_cost + int L * rx_cost" by simp
  moreover have "costs ''CSMA'' = Some (2, 1)" "costs ''TDMA'' = Some (2 div 2, 1 div 2)"
    by (simp_all add: costs_cases)
  ultimately show ?thesis using r rp h by blast
qed

theorem routing_deducts_hop_costs_witness:
  "has_node line_graph 0 \<and> has_node line_graph 2 \<and> shortest_route line_graph 0 2 [0, 1, 2] \<and>
   hops [0, 1, 2] = 2 \<and> finite (dom (initial_energy 3)) \<and>
   set (nodes line_graph) \<subseteq> dom (initial_energy 3) \<and>
   (\<exists>p logs energy'.
      simulate_routing line_graph 0 2 (initial_energy 3) ''TDMA'' =
        \<lparr>returned = Inr (Some p, logs), energy_after = energy', graph_after = line_graph\<rparr>
      \<and> route line_graph 0 2 p \<and> hops p = 2
      \<and> (\<Sum>n \<in> dom (initial_energy 3). the (initial_energy 3 n) - the (energy' n)) = 2
      \<and> energy' = charged (initial_energy 3) p 1 0)"
proof -
  have h: "hops [0, 1, 2] = 2" by (simp add: hops_def)
  have f: "finite (dom (initial_energy 3))" by (simp add: dom_initial_energy)
  have m: "''TDMA'' = ''CSMA'' \<and> (1::int) = 2 \<and> (0::int) = 1 \<or>
           ''TDMA'' = ''TDMA'' \<and> (1::int) = 1 \<and> (0::int) = 0" by simp
  from routing_deducts_hop_costs[OF nodes_line shortest_route_line h f covered_line m]
    nodes_line shortest_route_line h f covered_line
  show ?thesis by auto
qed

subsection \<open>C2: the path returned\<close>

text \<open>
  Claim C2, for the search modelled from the spec. When source and sink are nodes of
  the graph, some route \<open>q\<close> joins them and every node has an energy entry, the call
  returns a path that starts at source, ends at sink, joins consecutive nodes by edges
  of the graph, and has no more hops than \<open>q\<close>; \<open>q\<close> being any route, the hop count
  is minimal.
\<close>

theorem returned_path_is_shortest:
  assumes "has_node G source" and "has_node G sink" and "route G source sink q"
    and "set (nodes G) \<subseteq> dom energy"
  shows "\<exists>p logs. returned (simulate_routing G source sink energy mac_protocol) = Inr (Some p, logs)
            \<and> hd p = source \<and> last p = sink \<and> successively (has_edge G) p
            \<and> hops p \<le> hops q"
proof -
  have "\<exists>p. shortest_path G source sink = Inr p \<and>
          returned (simulate_routing G source sink energy mac_protocol) = Inr (Some p, transcript p)"
  proof (cases "costs mac_protocol")
    case None
    from simulate_routing_unknown[OF assms(1-3) None, of energy] show ?thesis by auto
  next
    case (Some c)
    obtain tx rx where "c = (tx, rx)" by (cases c)
    with Some have "costs mac_protocol = Some (tx, rx)" by simp
    from simulate_routing_known[OF assms this] show ?thesis by auto
  qed
  then obtain p where p: "shortest_path G source sink = Inr p"
    and r: "returned (simulate_routing G source sink energy mac_protocol) = Inr (Some p, transcript p)"
    by blast
  from shortest_path_shortest_route[OF p] assms(3)
  have "route G source sink p" "hops p \<le> hops q"
    by (simp_all add: shortest_route_def)
  with r show ?thesis by (auto simp: route_def)
qed

theorem returned_path_is_shortest_witness:
  "has_node line_graph 0 \<and> has_node line_graph 2 \<and> route line_graph 0 2 [0, 1, 2] \<and>
   set (nodes line_graph) \<subseteq> dom (initial_energy 3) \<and>
   (\<exists>p logs. returned (simulate_routing line_graph 0 2 (initial_energy 3) ''CSMA'') =
               Inr (Some p, logs)
            \<and> hd p = 0 \<and> last p = 2 \<and> successively (has_edge line_graph) p
            \<and> hops p \<le> hops [0, 1, 2])"
  using returned_path_is_shortest[OF nodes_line route_line covered_line, of "''CSMA''"]
    nodes_line route_line covered_line
  by simp

subsection \<open>C3: the edges of the topology\<close>

text \<open>
  Claim C3, as the spec states it, with the Euclidean distance of the positions: it
  fails, whatever the library, for the nodes at (0, 0) and (1, 2^-30) with range 1, and
  for the nodes at (0, 0) and (3 + 2^-51, 4) with range 5. The distance of the first
  pair is more than 1; the computed sum of the squares, 1 + 2^-60, is rounded to 1.0,
  its root is 1.0, and \<^verbatim>\<open>1.0 <= 1\<close> adds the edge. The distance of the second pair is
  more than 5; the root of the computed sum is rounded to 5.0, and \<^verbatim>\<open>5.0 <= 5\<close> adds the
  edge.
\<close>

theorem rounded_sum_links_distant_pair:
  "\<forall>up. topology up near_pair 1 = (None, [(0, [1]), (1, [0])])
     \<and> has_edge (snd (topology up near_pair 1)) 0 1
     \<and> map_of near_pair 0 = Some (0, 0)
     \<and> map_of near_pair 1 = Some (1, 1 / 2 ^ 30)
     \<and> (0::real) \<le> 1
     \<and> 1 < sqrt ((0 - 1)\<^sup>2 + (0 - 1 / 2 ^ 30)\<^sup>2)
     \<and> topology up skew_pair 5 = (None, [(0, [1]), (1, [0])])
     \<and> has_edge (snd (topology up skew_pair 5)) 0 1
     \<and> map_of skew_pair 0 = Some (0, 0)
     \<and> map_of skew_pair 1 = Some (3 + 1 / 2 ^ 51, 4)
     \<and> (0::real) \<le> 5
     \<and> 5 < sqrt ((0 - (3 + 1 / 2 ^ 51))\<^sup>2 + (0 - 4)\<^sup>2)"
proof (intro allI)
  fix up
  have n: "topology up near_pair 1 = (None, [(0, [1]), (1, [0])])"
    by (rule topology_near_pair)
  have s: "topology up skew_pair 5 = (None, [(0, [1]), (1, [0])])"
    by (rule topology_skew_pair)
  have e: "has_edge (snd (topology up near_pair 1)) 0 1"
    "has_edge (snd (topology up skew_pair 5)) 0 1"
    by (simp_all add: n s has_edge_def neighbors_def)
  have m: "map_of near_pair 0 = Some (0, 0)" "map_of near_pair 1 = Some (1, 1 / 2 ^ 30)"
    "map_of skew_pair 0 = Some (0, 0)" "map_of skew_pair 1 = Some (3 + 1 / 2 ^ 51, 4)"
    by (simp_all add: near_pair_def skew_pair_def)
  have d: "(1::real) < sqrt ((0 - 1)\<^sup>2 + (0 - 1 / 2 ^ 30)\<^sup>2)"
    by simp
  have r: "(0::real) \<le> 1" "(0::real) \<le> 5"
    by simp_all
  from n s e m d r skew_pair_apart
  show "topology up near_pair 1 = (None, [(0, [1]), (1, [0])])
     \<and> has_edge (snd (topology up near_pair 1)) 0 1
     \<and> map_of near_pair 0 = Some (0, 0)
     \<and> map_of near_pair 1 = Some (1, 1 / 2 ^ 30)
     \<and> (0::real) \<le> 1
     \<and> 1 < sqrt ((0 - 1)\<^sup>2 + (0 - 1 / 2 ^ 30)\<^sup>2)
     \<and> topology up skew_pair 5 = (None, [(0, [1]), (1, [0])])
     \<and> has_edge (snd (topology up skew_pair 5)) 0 1
     \<and> map_of skew_pair 0 = Some (0, 0)
     \<and> map_of skew_pair 1 = Some (3 + 1 / 2 ^ 51, 4)
     \<and> (0::real) \<le> 5
     \<and> 5 < sqrt ((0 - (3 + 1 / 2 ^ 51))\<^sup>2 + (0 - 4)\<^sup>2)"
    by (intro conjI)
qed

text \<open>
  Claim C3, with the distance as line 14 computes it. For every library, positions
  dictionary and transmission range (any range, so also every range that is at least
  0): lines 70 to 72 end without an exception or with the OverflowError of a square
  (as they do on \<open>huge_pair\<close>), and without an exception when no coordinate exceeds
  \<open>2 ^ 500\<close> in magnitude. When they end without an exception, the graph has an edge
  between \<open>i\<close> and \<open>j\<close> if and only if they are distinct keys of the dictionary whose
  computed distance is at most the range: with \<open>dx\<close> and \<open>dy\<close> the rounded differences
  of the coordinates and \<open>s\<close> the rounded sum of their squares as the library rounds
  them, none of the three overflows and the rounded square root of \<open>s\<close> is at most the
  range. The edge relation is symmetric and has no self-loop; the nodes are the keys;
  and a key with no other key in range is a node with no neighbour.
\<close>

theorem connect_nodes_edges:
  "(fst (topology up positions tx_range) = None
      \<or> fst (topology up positions tx_range) = Some OverflowError)
   \<and> (list_all (\<lambda>(k, p). \<bar>fst p\<bar> \<le> 2 ^ 500 \<and> \<bar>snd p\<bar> \<le> 2 ^ 500) positions \<longrightarrow>
        fst (topology up positions tx_range) = None)
   \<and> (fst (topology up positions tx_range) = None \<longrightarrow>
        (let G = snd (topology up positions tx_range);
             within_range = (\<lambda>a b.
               let dx = round_double (fst a - fst b);
                   dy = round_double (snd a - snd b);
                   s = round_double (round_faithful up (dx\<^sup>2) + round_faithful up (dy\<^sup>2))
               in \<bar>dx\<bar> < 2 ^ 1024 \<and> \<bar>dy\<bar> < 2 ^ 1024 \<and> s < 2 ^ 1024 \<and>
                  round_double (sqrt s) \<le> tx_range)
         in (has_edge G i j \<longleftrightarrow>
               i \<noteq> j \<and>
               (\<exists>a b. map_of positions i = Some a \<and> map_of positions j = Some b \<and>
                  within_range a b))
            \<and> (has_edge G i j \<longleftrightarrow> has_edge G j i)
            \<and> \<not> has_edge G i i
            \<and> (has_node G i \<longleftrightarrow> i \<in> set (keys positions))
            \<and> (i \<in> set (keys positions) \<and>
                list_all (\<lambda>k. k = i \<or>
                   (\<forall>a b. map_of positions i = Some a \<and> map_of positions k = Some b \<longrightarrow>
                      \<not> within_range a b)) (keys positions) \<longrightarrow>
                has_node G i \<and> neighbors G i = [])))"
proof -
  let ?G = "snd (topology up positions tx_range)"
  define C where "C = (\<lambda>a b.
       let dx = round_double (fst a - fst b);
           dy = round_double (snd a - snd b);
           s = round_double (round_faithful up (dx\<^sup>2) + round_faithful up (dy\<^sup>2))
       in \<bar>dx\<bar> < 2 ^ 1024 \<and> \<bar>dy\<bar> < 2 ^ 1024 \<and> s < 2 ^ 1024 \<and>
          round_double (sqrt s) \<le> tx_range)"
  have exn: "fst (topology up positions tx_range) = None
      \<or> fst (topology up positions tx_range) = Some OverflowError"
    by (rule topology_exn)
  have bounded: "fst (topology up positions tx_range) = None"
    if "list_all (\<lambda>(k, p). \<bar>fst p\<bar> \<le> 2 ^ 500 \<and> \<bar>snd p\<bar> \<le> 2 ^ 500) positions"
    using that by (rule topology_bounded)
  have body: "(has_edge ?G i j \<longleftrightarrow>
               i \<noteq> j \<and>
               (\<exists>a b. map_of positions i = Some a \<and> map_of positions j = Some b \<and> C a b))
            \<and> (has_edge ?G i j \<longleftrightarrow> has_edge ?G j i)
            \<and> \<not> has_edge ?G i i
            \<and> (has_node ?G i \<longleftrightarrow> i \<in> set (keys positions))
            \<and> (i \<in> set (keys positions) \<and>
                list_all (\<lambda>k. k = i \<or>
                   (\<forall>a b. map_of positions i = Some a \<and> map_of positions k = Some b \<longrightarrow>
                      \<not> C a b)) (keys positions) \<longrightarrow>
                has_node ?G i \<and> neighbors ?G i = [])"
    if none: "fst (topology up positions tx_range) = None"
  proof -
    from none have t: "topology up positions tx_range = (None, ?G)"
      by (simp add: prod_eq_iff)
    have formula: "c \<longleftrightarrow> C a b"
      if "in_range up positions tx_range m n = Inr c"
        and "map_of positions m = Some a" and "map_of positions n = Some b" for m n a b c
      using in_range_formula[OF that] by (simp add: C_def)
    have edge: "has_edge ?G m n \<longleftrightarrow>
        m \<noteq> n \<and> (\<exists>a b. map_of positions m = Some a \<and> map_of positions n = Some b \<and> C a b)"
      for m n
    proof
      assume "has_edge ?G m n"
      then have mn: "m \<noteq> n" and r: "in_range up positions tx_range m n = Inr True"
        by (simp_all add: has_edge_topology[OF t])
      from r obtain a b where ab: "map_of positions m = Some a" "map_of positions n = Some b"
        by (auto simp: in_range_def split: option.splits)
      from formula[OF r ab] mn ab
      show "m \<noteq> n \<and> (\<exists>a b. map_of positions m = Some a \<and> map_of positions n = Some b \<and> C a b)"
        by blast
    next
      assume "m \<noteq> n \<and> (\<exists>a b. map_of positions m = Some a \<and> map_of positions n = Some b \<and> C a b)"
      then obtain a b where mn: "m \<noteq> n"
        and ab: "map_of positions m = Some a" "map_of positions n = Some b" and c: "C a b"
        by blast
      from ab have "(m, a) \<in> set positions" "(n, b) \<in> set positions"
        by (auto dest: map_of_SomeD)
      then have "m \<in> set (keys positions)" "n \<in> set (keys positions)"
        by (force simp: keys_def)+
      from in_range_topology[OF t this mn] obtain c'
        where r: "in_range up positions tx_range m n = Inr c'"
        by blast
      from formula[OF r ab] c have "c'" by simp
      with r mn show "has_edge ?G m n"
        by (simp add: has_edge_topology[OF t])
    qed
    have 1: "has_edge ?G i j \<longleftrightarrow>
        i \<noteq> j \<and> (\<exists>a b. map_of positions i = Some a \<and> map_of positions j = Some b \<and> C a b)"
      by (rule edge)
    have 2: "has_edge ?G i j \<longleftrightarrow> has_edge ?G j i"
      using in_range_commute[of up positions tx_range i j]
      by (auto simp: has_edge_topology[OF t])
    have 3: "\<not> has_edge ?G i i"
      by (simp add: has_edge_topology[OF t])
    have 4: "has_node ?G i \<longleftrightarrow> i \<in> set (keys positions)"
      using t by (rule has_node_topology)
    have 5: "has_node ?G i \<and> neighbors ?G i = []"
      if key: "i \<in> set (keys positions)"
        and alone: "list_all (\<lambda>k. k = i \<or>
             (\<forall>a b. map_of positions i = Some a \<and> map_of positions k = Some b \<longrightarrow>
                \<not> C a b)) (keys positions)"
    proof -
      have "\<not> has_edge ?G i k" for k
      proof
        assume e: "has_edge ?G i k"
        then obtain a b where ik: "i \<noteq> k"
          and ab: "map_of positions i = Some a" "map_of positions k = Some b" and c: "C a b"
          using edge[of i k] by blast
        from ab(2) have "(k, b) \<in> set positions"
          by (auto dest: map_of_SomeD)
        then have "k \<in> set (keys positions)"
          by (force simp: keys_def)
        with alone have "k = i \<or>
             (\<forall>a b. map_of positions i = Some a \<and> map_of positions k = Some b \<longrightarrow>
                \<not> C a b)"
          by (simp only: list_all_iff)
        with ik ab c show False
          by blast
      qed
      then have "neighbors ?G i = []"
        by (intro no_neighbors) blast
      with key 4 show ?thesis by simp
    qed
    from 1 2 3 4 5 show ?thesis by blast
  qed
  show ?thesis
    unfolding Let_def
    using exn bounded body[unfolded C_def Let_def]
    by blast
qed

theorem connect_nodes_edges_witness:
  "list_all (\<lambda>(k, p). \<bar>fst p\<bar> \<le> 2 ^ 500 \<and> \<bar>snd p\<bar> \<le> 2 ^ 500) far_pair
   \<and> fst (topology (\<lambda>t. False) far_pair (3 / 2)) = None
   \<and> 0 \<in> set (keys far_pair)
   \<and> map_of far_pair 0 = Some (0, 0)
   \<and> map_of far_pair 1 = Some (2, 0)
   \<and> \<not> round_double (sqrt (round_double
          (round_faithful (\<lambda>t. False) ((round_double (0 - 2))\<^sup>2)
           + round_faithful (\<lambda>t. False) ((round_double (0 - 0))\<^sup>2)))) \<le> 3 / 2
   \<and> has_node (snd (topology (\<lambda>t. False) far_pair (3 / 2))) 0
   \<and> neighbors (snd (topology (\<lambda>t. False) far_pair (3 / 2))) 0 = []
   \<and> \<not> has_edge (snd (topology (\<lambda>t. False) far_pair (3 / 2))) 0 1"
proof -
  let ?up = "\<lambda>t::real. False"
  have b: "list_all (\<lambda>(k, p). \<bar>fst p\<bar> \<le> 2 ^ 500 \<and> \<bar>snd p\<bar> \<le> 2 ^ 500) far_pair"
    by (simp add: far_pair_def)
  have k: "0 \<in> set (keys far_pair)"
    by (simp add: keys_def far_pair_def)
  have m: "map_of far_pair 0 = Some (0, 0)" "map_of far_pair 1 = Some (2, 0)"
    by (simp_all add: far_pair_def)
  have e: "round_faithful ?up 4 = 4" "round_faithful ?up 0 = 0"
    by (simp_all add: round_faithful_exact round_double_4 round_double_0)
  have far: "\<not> round_double (sqrt (round_double
          (round_faithful ?up ((round_double (0 - 2))\<^sup>2)
           + round_faithful ?up ((round_double (0 - 0))\<^sup>2)))) \<le> 3 / 2"
    by (simp add: round_double_minus round_double_0 round_double_2 round_double_4 e)
  have alone: "list_all (\<lambda>k. k = 0 \<or>
       (\<forall>a b. map_of far_pair 0 = Some a \<and> map_of far_pair k = Some b \<longrightarrow>
          \<not> (\<bar>round_double (fst a - fst b)\<bar> < 2 ^ 1024 \<and>
             \<bar>round_double (snd a - snd b)\<bar> < 2 ^ 1024 \<and>
             round_double (round_faithful ?up ((round_double (fst a - fst b))\<^sup>2)
               + round_faithful ?up ((round_double (snd a - snd b))\<^sup>2)) < 2 ^ 1024 \<and>
             round_double (sqrt (round_double
               (round_faithful ?up ((round_double (fst a - fst b))\<^sup>2)
                + round_faithful ?up ((round_double (snd a - snd b))\<^sup>2)))) \<le> 3 / 2)))
       (keys far_pair)"
    using far by (simp add: keys_def far_pair_def)
  note c = connect_nodes_edges[of ?up far_pair "3 / 2" 0 1, unfolded Let_def]
  from c b have n: "fst (topology ?up far_pair (3 / 2)) = None"
    by blast
  from c n k alone
  have iso: "has_node (snd (topology ?up far_pair (3 / 2))) 0 \<and>
      neighbors (snd (topology ?up far_pair (3 / 2))) 0 = []"
    by blast
  then have "\<not> has_edge (snd (topology ?up far_pair (3 / 2))) 0 1"
    by (simp add: has_edge_def)
  with b n k m far iso show ?thesis by blast
qed


subsection \<open>C4: no path\<close>

text \<open>
  Claim C4. When source and sink are nodes of the graph and no route joins them (they
  lie in disjoint connected components), \<open>simulate_routing\<close> returns the pair of
  \<open>None\<close> and the one-line transcript "No path found!", and the energy map after the
  call is the energy map before it, whatever the MAC policy.
\<close>

theorem no_path_outcome:
  assumes "has_node G source" and "has_node G sink" and "unreachable G source sink"
  shows "simulate_routing G source sink energy mac_protocol =
           \<lparr>returned = Inr (None, [''No path found!'']), energy_after = energy, graph_after = G\<rparr>"
proof -
  from assms have "shortest_path G source sink = Inl NetworkXNoPath"
    using shortest_path_cases[of G source sink] shortest_path_NodeNotFound[of G source sink]
      shortest_path_Inr[of G source sink]
    by (auto simp: unreachable_def)
  then show ?thesis by (simp add: simulate_routing_def)
qed

theorem no_path_outcome_witness:
  "has_node two_islands 0 \<and> has_node two_islands 1 \<and> unreachable two_islands 0 1 \<and>
   simulate_routing two_islands 0 1 (initial_energy 2) ''CSMA'' =
     \<lparr>returned = Inr (None, [''No path found!'']), energy_after = initial_energy 2,
      graph_after = two_islands\<rparr>"
proof -
  have h: "has_node two_islands 0" "has_node two_islands 1"
    by (simp_all add: has_node_def nodes_def two_islands_def)
  from no_path_outcome[OF h two_islands_unreachable, of "initial_energy 2" "''CSMA''"]
    h two_islands_unreachable
  show ?thesis by simp
qed

subsection \<open>C5: the three-node scenario\<close>


subsection \<open>C6: source equal to sink\<close>

text \<open>
  Claim C6. For every graph, every node \<open>source\<close> of it, every energy map and every
  policy, routing from \<open>source\<close> to itself returns the path of the single node
  \<open>source\<close> (zero hops) and the empty transcript, and changes no energy. That the
  selected node is a node of the graph is the precondition of every routing request;
  claim C7 is about the requests that break it.
\<close>

theorem same_node_zero_hops:
  assumes "has_node G source"
  shows "simulate_routing G source source energy mac_protocol =
           \<lparr>returned = Inr (Some [source], []), energy_after = energy, graph_after = G\<rparr>
         \<and> hops [source] = 0"
  using single_node_path[OF assms] by (simp add: simulate_routing_def hops_def)

theorem same_node_zero_hops_witness:
  "has_node line_graph 1 \<and>
   simulate_routing line_graph 1 1 (initial_energy 3) ''CSMA'' =
     \<lparr>returned = Inr (Some [1], []), energy_after = initial_energy 3, graph_after = line_graph\<rparr>"
proof -
  have h: "has_node line_graph 1"
    by (simp add: has_node_def nodes_def line_graph_def)
  from same_node_zero_hops[OF h, of "initial_energy 3" "''CSMA''"] h show ?thesis by simp
qed

subsection \<open>C7: a source or sink that is not in the graph\<close>

text \<open>
  Claim C7, for the search modelled from the spec. When source or sink is not a node
  of the graph, the routing request is refused with a descriptive refusal: the call
  ends in the exception NodeNotFound whose message names the node that is missing
  ("Source s is not in G", or "Target t is not in G" when the source is a node). The
  refusal comes before any hop: no energy entry is read or changed (so no KeyError,
  the out-of-bounds access of a dictionary, can arise) and the graph is as it was.
  \<open>simulate_routing\<close> catches NetworkXNoPath only, so the refusal reaches the caller as
  that exception.
\<close>

theorem invalid_selection_refused:
  assumes "\<not> has_node G source \<or> \<not> has_node G sink"
  shows "simulate_routing G source sink energy mac_protocol =
           \<lparr>returned =
              Inl (NodeNotFound
                (if has_node G source then ''Target '' @ str_int sink @ '' is not in G''
                 else ''Source '' @ str_int source @ '' is not in G'')),
            energy_after = energy, graph_after = G\<rparr>"
  using assms by (simp add: simulate_routing_def shortest_path_def)

theorem invalid_selection_refused_witness:
  "has_node line_graph 0 \<and> \<not> has_node line_graph 7 \<and>
   simulate_routing line_graph 0 7 (initial_energy 3) ''TDMA'' =
     \<lparr>returned = Inl (NodeNotFound ''Target 7 is not in G''),
      energy_after = initial_energy 3, graph_after = line_graph\<rparr>"
proof -
  have h: "has_node line_graph 0" "\<not> has_node line_graph 7"
    by (simp_all add: has_node_def nodes_def line_graph_def)
  then have "\<not> has_node line_graph 0 \<or> \<not> has_node line_graph 7"
    by simp
  from invalid_selection_refused[OF this, of "initial_energy 3" "''TDMA''"] h
  show ?thesis
    by (simp add: str_int_def digits.simps digit_char_def)
qed

subsection \<open>C8: calling twice\<close>

text \<open>
  Claim C8 says that for every source and sink joined by a path two calls in a row
  are not idempotent. For source equal to sink they are: the path has no hop, the
  first call changes no energy, and the second call returns what the first returned
  and leaves the same energy map.
\<close>

theorem repeat_at_zero_hops_changes_nothing:
  "route line_graph 1 1 [1] \<and>
   simulate_routing line_graph 1 1
     (energy_after (simulate_routing line_graph 1 1 (initial_energy 3) ''CSMA'')) ''CSMA'' =
   simulate_routing line_graph 1 1 (initial_energy 3) ''CSMA''"
proof -
  have h: "has_node line_graph 1"
    by (simp add: has_node_def nodes_def line_graph_def)
  have "simulate_routing line_graph 1 1 e ''CSMA'' =
          \<lparr>returned = Inr (Some [1], []), energy_after = e, graph_after = line_graph\<rparr>" for e
    using single_node_path[OF h] by (simp add: simulate_routing_def)
  then show ?thesis by (simp add: route_single)
qed

text \<open>
  Claim C8 as amended. When source and sink are distinct nodes joined by a route,
  every node has an energy entry and the policy is CSMA or TDMA, the second call on
  the energy map that the first one left returns the same path and transcript and
  charges the same hops again: every node loses in the second call exactly what it
  lost in the first, and the energy map after the second call differs from the one
  after the first.
\<close>

theorem second_call_deducts_again:
  assumes "has_node G source" and "has_node G sink" and "route G source sink q"
    and "source \<noteq> sink" and "set (nodes G) \<subseteq> dom energy"
    and "mac_protocol = ''CSMA'' \<and> tx_cost = 2 \<and> rx_cost = 1 \<or>
         mac_protocol = ''TDMA'' \<and> tx_cost = 1 \<and> rx_cost = 0"
  shows "\<exists>p logs energy1 energy2.
           simulate_routing G source sink energy mac_protocol =
             \<lparr>returned = Inr (Some p, logs), energy_after = energy1, graph_after = G\<rparr>
         \<and> simulate_routing G source sink energy1 mac_protocol =
             \<lparr>returned = Inr (Some p, logs), energy_after = energy2, graph_after = G\<rparr>
         \<and> energy1 = charged energy p tx_cost rx_cost
         \<and> energy2 = charged energy1 p tx_cost rx_cost
         \<and> (\<forall>n. the (energy1 n) - the (energy2 n) = the (energy n) - the (energy1 n))
         \<and> energy2 \<noteq> energy1"
proof -
  from assms(6) have c: "costs mac_protocol = Some (tx_cost, rx_cost)"
    by (simp add: costs_cases)
  from assms(6) have pos: "1 \<le> tx_cost" "0 \<le> rx_cost" by auto
  let ?e1 = "\<lambda>p. charged energy p tx_cost rx_cost"
  from simulate_routing_known[OF assms(1-3,5) c] obtain p
    where p: "shortest_path G source sink = Inr p"
      and r1: "simulate_routing G source sink energy mac_protocol =
                \<lparr>returned = Inr (Some p, transcript p), energy_after = ?e1 p, graph_after = G\<rparr>"
    by blast
  have cov: "set (nodes G) \<subseteq> dom (?e1 p)"
    using assms(5) by (simp add: dom_charged)
  from simulate_routing_known[OF assms(1-3) cov c] p
  have r2: "simulate_routing G source sink (?e1 p) mac_protocol =
              \<lparr>returned = Inr (Some p, transcript p),
               energy_after = charged (?e1 p) p tx_cost rx_cost, graph_after = G\<rparr>"
    by simp
  from shortest_path_Inr[OF p] have rp: "route G source sink p" by simp
  from source_is_sender[OF rp assms(4)] have snd: "source \<in> set (senders p)" .
  from assms(1,5) have "source \<in> dom (?e1 p)"
    by (auto simp: has_node_def dom_charged)
  from charged_changes[OF pos snd this]
  have ne: "charged (?e1 p) p tx_cost rx_cost \<noteq> ?e1 p" .
  have "\<forall>n. the (?e1 p n) - the (charged (?e1 p) p tx_cost rx_cost n) =
          the (energy n) - the (?e1 p n)"
    by (simp add: charged_twice)
  with r1 r2 ne show ?thesis by blast
qed

theorem second_call_deducts_again_witness:
  "has_node line_graph 0 \<and> has_node line_graph 2 \<and> route line_graph 0 2 [0, 1, 2] \<and>
   (0::int) \<noteq> 2 \<and> set (nodes line_graph) \<subseteq> dom (initial_energy 3) \<and>
   (\<exists>p logs energy1 energy2.
      simulate_routing line_graph 0 2 (initial_energy 3) ''CSMA'' =
        \<lparr>returned = Inr (Some p, logs), energy_after = energy1, graph_after = line_graph\<rparr>
      \<and> simulate_routing line_graph 0 2 energy1 ''CSMA'' =
        \<lparr>returned = Inr (Some p, logs), energy_after = energy2, graph_after = line_graph\<rparr>
      \<and> energy1 = charged (initial_energy 3) p 2 1
      \<and> energy2 = charged energy1 p 2 1
      \<and> energy2 \<noteq> energy1)"
proof -
  have d: "(0::int) \<noteq> 2" by simp
  have m: "''CSMA'' = ''CSMA'' \<and> (2::int) = 2 \<and> (1::int) = 1 \<or>
           ''CSMA'' = ''TDMA'' \<and> (2::int) = 1 \<and> (1::int) = 0" by simp
  from second_call_deducts_again[OF nodes_line route_line d covered_line m]
  have "\<exists>p logs energy1 energy2.
      simulate_routing line_graph 0 2 (initial_energy 3) ''CSMA'' =
        \<lparr>returned = Inr (Some p, logs), energy_after = energy1, graph_after = line_graph\<rparr>
      \<and> simulate_routing line_graph 0 2 energy1 ''CSMA'' =
        \<lparr>returned = Inr (Some p, logs), energy_after = energy2, graph_after = line_graph\<rparr>
      \<and> energy1 = charged (initial_energy 3) p 2 1
      \<and> energy2 = charged energy1 p 2 1
      \<and> energy2 \<noteq> energy1"
    by blast
  with nodes_line route_line d covered_line show ?thesis
    by (intro conjI)
qed

subsection \<open>C9: an unrecognised policy\<close>



subsection \<open>C10: what a call leaves alone\<close>

text \<open>
  Claim C10. Whenever a call returns a path (under CSMA, TDMA or any other policy
  value), every node that is not on the returned path has the energy it had, the
  graph is the graph it was (so are its node and edge sets), the energy map has the
  keys it had, and no node has more energy than before.
\<close>

theorem routing_frame:
  assumes "returned (simulate_routing G source sink energy mac_protocol) = Inr (Some p, logs)"
  shows "(\<forall>n. n \<notin> set p \<longrightarrow>
            energy_after (simulate_routing G source sink energy mac_protocol) n = energy n)
         \<and> graph_after (simulate_routing G source sink energy mac_protocol) = G
         \<and> dom (energy_after (simulate_routing G source sink energy mac_protocol)) = dom energy
         \<and> (\<forall>n a b. energy n = Some a \<and>
               energy_after (simulate_routing G source sink energy mac_protocol) n = Some b
               \<longrightarrow> b \<le> a)"
proof -
  let ?e = "energy_after (simulate_routing G source sink energy mac_protocol)"
  from simulate_routing_returned_path[OF assms]
  have l: "route_loop mac_protocol p energy [] = (Inr logs, ?e)" by simp
  show ?thesis
  proof (cases "costs mac_protocol")
    case None
    from route_loop_unknown[OF None, of p energy "[]"] l have "?e = energy" by simp
    then show ?thesis by (auto simp: graph_after_same)
  next
    case (Some c)
    obtain tx rx where "c = (tx, rx)" by (cases c)
    with Some have c: "costs mac_protocol = Some (tx, rx)" by simp
    from route_loop_result[OF c l] have e: "?e = charged energy p tx rx" by simp
    from costs_nonneg[OF c] have nn: "0 \<le> tx" "0 \<le> rx" by simp_all
    have "\<forall>n. n \<notin> set p \<longrightarrow> ?e n = energy n"
      by (simp add: e charged_off_path)
    moreover have "dom ?e = dom energy"
      by (simp add: e dom_charged)
    moreover have "\<forall>n a b. energy n = Some a \<and> ?e n = Some b \<longrightarrow> b \<le> a"
      using charged_le[OF nn] by (auto simp: e)
    ultimately show ?thesis by (simp add: graph_after_same)
  qed
qed

theorem routing_frame_witness:
  "returned (simulate_routing spur_graph 0 2 (initial_energy 4) ''CSMA'') =
     Inr (Some [0, 1, 2], transcript [0, 1, 2]) \<and>
   energy_after (simulate_routing spur_graph 0 2 (initial_energy 4) ''CSMA'') 3 = Some 100 \<and>
   graph_after (simulate_routing spur_graph 0 2 (initial_energy 4) ''CSMA'') = spur_graph \<and>
   dom (energy_after (simulate_routing spur_graph 0 2 (initial_energy 4) ''CSMA'')) = {0..<4}"
proof -
  let ?r = "simulate_routing spur_graph 0 2 (initial_energy 4) ''CSMA''"
  note frame = routing_frame[OF returned_spur]
  from frame have "\<forall>n. n \<notin> set [0, 1, 2] \<longrightarrow> energy_after ?r n = initial_energy 4 n"
    by (rule conjunct1)
  then have "energy_after ?r 3 = initial_energy 4 3"
    by simp
  then have off: "energy_after ?r 3 = Some 100"
    by (simp add: initial_energy_def MAX_ENERGY_def)
  from frame have g: "graph_after ?r = spur_graph"
    by blast
  from frame have "dom (energy_after ?r) = dom (initial_energy 4)"
    by blast
  then have d: "dom (energy_after ?r) = {0..<4}"
    by (simp only: dom_initial_energy)
  from returned_spur off g d show ?thesis
    by (intro conjI)
qed

end
